theory Spec2Isabelle
  imports Complex_Main "HOL-Library.AList"
begin

section \<open>JavaScript values used by the LogFocus engine\<close>

text \<open>
  The engine (filter.ts, utils.ts, focusProvider.ts and the filter commands of commands.ts)
  is TypeScript.  Its values are modelled as follows.

  \<^item> A string is a list of characters; every element stands for one code unit, which is
    what \<open>length\<close>, \<open>lastIndex\<close> and \<open>match.index\<close> count.
  \<^item> A \<open>number\<close> is a finite value, one of the two infinities, or NaN.  \<open>Math.min\<close> and
    \<open>Math.max\<close> return NaN as soon as one argument is NaN, and every comparison with NaN
    is false.
  \<^item> Line numbers and regex positions are natural numbers.
  \<^item> A \<open>Set<number>\<close> is a list without repetition in insertion order; a \<open>Map\<close> that the
    code iterates over is an association list in insertion order, \<open>AList.update\<close> being
    \<open>Map.prototype.set\<close>.
\<close>

datatype number = NaN | NegInf | Num real | PosInf

fun num_lt :: "number \<Rightarrow> number \<Rightarrow> bool" where
  "num_lt NaN b = False"
| "num_lt a NaN = False"
| "num_lt a NegInf = False"
| "num_lt NegInf b = True"
| "num_lt PosInf b = False"
| "num_lt a PosInf = True"
| "num_lt (Num x) (Num y) = (x < y)"

fun num_le :: "number \<Rightarrow> number \<Rightarrow> bool" where
  "num_le NaN b = False"
| "num_le a NaN = False"
| "num_le NegInf b = True"
| "num_le a PosInf = True"
| "num_le a NegInf = False"
| "num_le PosInf b = False"
| "num_le (Num x) (Num y) = (x \<le> y)"

fun num_sub :: "number \<Rightarrow> number \<Rightarrow> number" where
  "num_sub NaN b = NaN"
| "num_sub a NaN = NaN"
| "num_sub (Num x) (Num y) = Num (x - y)"
| "num_sub PosInf PosInf = NaN"
| "num_sub NegInf NegInf = NaN"
| "num_sub PosInf b = PosInf"
| "num_sub NegInf b = NegInf"
| "num_sub a PosInf = NegInf"
| "num_sub a NegInf = PosInf"

definition Math_min :: "number \<Rightarrow> number \<Rightarrow> number" where
  "Math_min a b = (if a = NaN then NaN else if b = NaN then NaN else if num_lt b a then b else a)"

definition Math_max :: "number \<Rightarrow> number \<Rightarrow> number" where
  "Math_max a b = (if a = NaN then NaN else if b = NaN then NaN else if num_lt a b then b else a)"

text \<open>\<open>Set.prototype.add\<close> and \<open>Set.prototype.delete\<close> on an insertion-ordered set.\<close>

definition Set_add :: "'a \<Rightarrow> 'a list \<Rightarrow> 'a list" where
  "Set_add x xs = (if x \<in> set xs then xs else xs @ [x])"

definition Set_delete :: "'a \<Rightarrow> 'a list \<Rightarrow> 'a list" where
  "Set_delete x xs = removeAll x xs"

text \<open>
  \<open>Array.prototype.sort\<close> with a comparator is stable: \<open>a\<close> moves behind \<open>b\<close> only when
  \<open>cmp(a, b) > 0\<close> (a NaN result counts as 0).  The insertion sort below is one such sort;
  for a consistent comparator every stable sort returns the same array.
\<close>

fun insort_by :: "('a \<Rightarrow> 'a \<Rightarrow> number) \<Rightarrow> 'a \<Rightarrow> 'a list \<Rightarrow> 'a list" where
  "insort_by cmp x [] = [x]"
| "insort_by cmp x (y # ys) =
     (if num_lt (Num 0) (cmp x y) then y # insort_by cmp x ys else x # y # ys)"

definition Array_sort :: "('a \<Rightarrow> 'a \<Rightarrow> number) \<Rightarrow> 'a list \<Rightarrow> 'a list" where
  "Array_sort cmp xs = foldr (insort_by cmp) xs []"

fun Array_join :: "string \<Rightarrow> string list \<Rightarrow> string" where
  "Array_join sep [] = []"
| "Array_join sep [x] = x"
| "Array_join sep (x # y # ys) = x @ sep @ Array_join sep (y # ys)"

text \<open>\<open>text.split('\n')\<close>: the empty text is one empty line; no line keeps its newline.\<close>

fun split_lines :: "string \<Rightarrow> string list" where
  "split_lines [] = [[]]"
| "split_lines (c # s) =
     (if c = CHR 0x0A then [] # split_lines s
      else case split_lines s of l # ls \<Rightarrow> (c # l) # ls | [] \<Rightarrow> [[c]])"

text \<open>\<open>line.includes(pattern)\<close>: the pattern starts at some position of the line.\<close>

fun starts_with :: "string \<Rightarrow> string \<Rightarrow> bool" where
  "starts_with s [] = True"
| "starts_with [] (p # ps) = False"
| "starts_with (c # s) (p # ps) = (if c = p then starts_with s ps else False)"

fun String_includes :: "string \<Rightarrow> string \<Rightarrow> bool" where
  "String_includes [] p = starts_with [] p"
| "String_includes (c # s) p = (if starts_with (c # s) p then True else String_includes s p)"


section \<open>The regular expressions of the runtime\<close>

text \<open>
  \<open>RegExp\<close> is the runtime's, not the repository's.  It is modelled by a backtracking
  matcher for a fragment of the pattern language: literal characters, escaped syntax
  characters, \<open>.\<close>, concatenation, \<open>|\<close>, greedy \<open>*\<close>, capturing groups, \<open>(?:...)\<close> and the
  negative lookahead \<open>(?!...)\<close>.  A pattern outside the fragment is rejected like a
  syntax error.  A capturing group carries the number the runtime gives it: its left
  parenthesis's rank in the whole pattern.
\<close>

datatype rx =
    Empty
  | Chr char
  | Dot
  | Seq rx rx
  | Alt rx rx
  | Star rx
  | Group nat rx
  | NonCapture rx
  | NegLookahead rx

text \<open>A match state: the position reached and the captures \<open>match[1]\<close>, \<open>match[2]\<close>, ...\<close>

type_synonym mstate = "nat \<times> string option list"

fun groups_in :: "rx \<Rightarrow> nat list" where
  "groups_in Empty = []"
| "groups_in (Chr c) = []"
| "groups_in Dot = []"
| "groups_in (Seq r1 r2) = groups_in r1 @ groups_in r2"
| "groups_in (Alt r1 r2) = groups_in r1 @ groups_in r2"
| "groups_in (Star r) = groups_in r"
| "groups_in (Group n r) = n # groups_in r"
| "groups_in (NonCapture r) = groups_in r"
| "groups_in (NegLookahead r) = groups_in r"

definition clear_captures :: "nat list \<Rightarrow> string option list \<Rightarrow> string option list" where
  "clear_captures ns c = fold (\<lambda>n c'. c'[n - 1 := None]) ns c"

text \<open>
  \<open>ms r s x\<close> lists the states in which \<open>r\<close> can end when started in state \<open>x\<close> on the
  subject \<open>s\<close>, in the order in which backtracking tries them; the runtime takes the first.
  An iteration of \<open>*\<close> that consumes nothing is not repeated, and every iteration starts
  with the captures of the groups inside it cleared.
\<close>

function (sequential) ms :: "rx \<Rightarrow> string \<Rightarrow> mstate \<Rightarrow> mstate list" where
  "ms Empty s (i, c) = [(i, c)]"
| "ms (Chr a) s (i, c) = (if i < length s \<and> s ! i = a then [(Suc i, c)] else [])"
| "ms Dot s (i, c) =
     (if i < length s \<and> s ! i \<noteq> CHR 0x0A \<and> s ! i \<noteq> CHR 0x0D then [(Suc i, c)] else [])"
| "ms (Seq r1 r2) s (i, c) = concat (map (\<lambda>x. ms r2 s x) (ms r1 s (i, c)))"
| "ms (Alt r1 r2) s (i, c) = ms r1 s (i, c) @ ms r2 s (i, c)"
| "ms (Star r) s (i, c) =
     concat (map (\<lambda>x. if i < fst x \<and> fst x \<le> length s then ms (Star r) s x else [])
               (ms r s (i, clear_captures (groups_in r) c)))
     @ [(i, c)]"
| "ms (Group n r) s (i, c) =
     map (\<lambda>(j, c'). (j, c'[n - 1 := Some (take (j - i) (drop i s))])) (ms r s (i, c))"
| "ms (NonCapture r) s (i, c) = ms r s (i, c)"
| "ms (NegLookahead r) s (i, c) = (if ms r s (i, c) = [] then [(i, c)] else [])"
  by pat_completeness auto
termination
  by (relation "inv_image (less_than <*lex*> less_than) (\<lambda>(r, s, x). (size r, length s - fst x))")
     auto

subsection \<open>Reading a pattern\<close>

datatype token = TChr char | TDot | TStar | TBar | TOpen | TOpenNC | TOpenNL | TClose

text \<open>The syntax characters of the pattern language; \<open>CHR 0x5C\<close> is the backslash.\<close>

definition syntax_chars :: "char list" where
  "syntax_chars =
     [CHR ''.'', CHR ''*'', CHR ''+'', CHR ''?'', CHR ''^'', CHR ''$'', CHR ''{'', CHR ''}'',
      CHR ''('', CHR '')'', CHR ''|'', CHR ''['', CHR '']'', CHR 0x5C]"

fun tokenize :: "string \<Rightarrow> token list option" where
  "tokenize [] = Some []"
| "tokenize (c # s) =
    (if c = CHR 0x5C then
       (case s of
          [] \<Rightarrow> None
        | d # s' \<Rightarrow>
            if d \<in> set syntax_chars then map_option ((#) (TChr d)) (tokenize s')
            else if d = CHR ''/'' then map_option ((#) (TChr d)) (tokenize s')
            else None)
     else if c = CHR ''('' then
       (case s of
          [] \<Rightarrow> map_option ((#) TOpen) (tokenize s)
        | q # s' \<Rightarrow>
            if q = CHR ''?'' then
              (case s' of
                 [] \<Rightarrow> None
               | k # s'' \<Rightarrow>
                   if k = CHR '':'' then map_option ((#) TOpenNC) (tokenize s'')
                   else if k = CHR ''!'' then map_option ((#) TOpenNL) (tokenize s'')
                   else None)
            else map_option ((#) TOpen) (tokenize s))
     else if c = CHR '')'' then map_option ((#) TClose) (tokenize s)
     else if c = CHR ''|'' then map_option ((#) TBar) (tokenize s)
     else if c = CHR ''*'' then map_option ((#) TStar) (tokenize s)
     else if c = CHR ''.'' then map_option ((#) TDot) (tokenize s)
     else if c \<in> set syntax_chars then None
     else map_option ((#) (TChr c)) (tokenize s))"

datatype gkind = GTop | GCap nat | GNonCap | GNegLook

text \<open>
  A frame is a group being read: its kind, its finished alternatives and the terms of
  the alternative being read.
\<close>

type_synonym frame = "gkind \<times> rx list \<times> rx list"

fun seq_of :: "rx list \<Rightarrow> rx" where
  "seq_of [] = Empty"
| "seq_of [r] = r"
| "seq_of (r # r' # rs) = Seq r (seq_of (r' # rs))"

fun disj_of :: "rx list \<Rightarrow> rx" where
  "disj_of [] = Empty"
| "disj_of [r] = r"
| "disj_of (r # r' # rs) = Alt r (disj_of (r' # rs))"

fun close_group :: "gkind \<Rightarrow> rx \<Rightarrow> rx" where
  "close_group GTop r = r"
| "close_group (GCap n) r = Group n r"
| "close_group GNonCap r = NonCapture r"
| "close_group GNegLook r = NegLookahead r"

fun quantifiable :: "rx \<Rightarrow> bool" where
  "quantifiable (Star r) = False"
| "quantifiable (NegLookahead r) = False"
| "quantifiable r = True"

fun parse_tokens :: "token list \<Rightarrow> nat \<Rightarrow> frame \<Rightarrow> frame list \<Rightarrow> (rx \<times> nat) option" where
  "parse_tokens [] n (k, alts, cur) stk =
     (if stk = [] then Some (disj_of (alts @ [seq_of cur]), n) else None)"
| "parse_tokens (TChr c # ts) n (k, alts, cur) stk = parse_tokens ts n (k, alts, cur @ [Chr c]) stk"
| "parse_tokens (TDot # ts) n (k, alts, cur) stk = parse_tokens ts n (k, alts, cur @ [Dot]) stk"
| "parse_tokens (TStar # ts) n (k, alts, cur) stk =
     (if cur = [] then None
      else if quantifiable (last cur)
      then parse_tokens ts n (k, alts, butlast cur @ [Star (last cur)]) stk
      else None)"
| "parse_tokens (TBar # ts) n (k, alts, cur) stk = parse_tokens ts n (k, alts @ [seq_of cur], []) stk"
| "parse_tokens (TOpen # ts) n fr stk = parse_tokens ts (Suc n) (GCap (Suc n), [], []) (fr # stk)"
| "parse_tokens (TOpenNC # ts) n fr stk = parse_tokens ts n (GNonCap, [], []) (fr # stk)"
| "parse_tokens (TOpenNL # ts) n fr stk = parse_tokens ts n (GNegLook, [], []) (fr # stk)"
| "parse_tokens (TClose # ts) n (k, alts, cur) stk =
     (case stk of
        [] \<Rightarrow> None
      | (k', alts', cur') # stk' \<Rightarrow>
          parse_tokens ts n (k', alts', cur' @ [close_group k (disj_of (alts @ [seq_of cur]))]) stk')"

text \<open>The parsed pattern and the number of its capturing groups.\<close>

definition parse_pattern :: "string \<Rightarrow> (rx \<times> nat) option" where
  "parse_pattern p =
     (case tokenize p of None \<Rightarrow> None | Some ts \<Rightarrow> parse_tokens ts 0 (GTop, [], []) [])"

subsection \<open>RegExp objects\<close>

datatype error = SyntaxError | TypeError

text \<open>
  What a compiled pattern does at one position of a subject: no match, or the matched
  text \<open>match[0]\<close> and the captures.  The end of a match is its start plus the length of
  the matched text.
\<close>

type_synonym matcher = "string \<Rightarrow> nat \<Rightarrow> (string \<times> string option list) option"

record RegExp =
  source :: string
  global :: bool
  lastIndex :: nat
  matcher :: matcher

record RegExpExecArray =
  index :: nat
  matched :: string
  captures :: "string option list"

definition rx_matcher :: "rx \<Rightarrow> nat \<Rightarrow> matcher" where
  "rx_matcher r n s i =
     (case ms r s (i, replicate n None) of
        [] \<Rightarrow> None
      | (j, c) # rest \<Rightarrow> Some (take (j - i) (drop i s), c))"

text \<open>
  \<open>source\<close> is the pattern with every unescaped \<open>/\<close> escaped; the source of the empty
  pattern is \<open>(?:)\<close>.
\<close>

fun EscapeRegExpPattern :: "string \<Rightarrow> string" where
  "EscapeRegExpPattern [] = []"
| "EscapeRegExpPattern (c # s) =
     (if c = CHR 0x5C then
        (case s of [] \<Rightarrow> [c] | d # s' \<Rightarrow> c # d # EscapeRegExpPattern s')
      else if c = CHR ''/'' then CHR 0x5C # CHR ''/'' # EscapeRegExpPattern s
      else c # EscapeRegExpPattern s)"

text \<open>\<open>new RegExp(pattern, flags)\<close>, for the flags \<open>g\<close> and \<open>m\<close> the engine uses.\<close>

definition RegExp_new :: "string \<Rightarrow> string \<Rightarrow> error + RegExp" where
  "RegExp_new pattern flags =
     (if set flags \<subseteq> {CHR ''g'', CHR ''m''} \<and> distinct flags then
        (case parse_pattern pattern of
           None \<Rightarrow> Inl SyntaxError
         | Some (r, n) \<Rightarrow>
             Inr \<lparr>source = (if pattern = [] then ''(?:)'' else EscapeRegExpPattern pattern),
                  global = (CHR ''g'' \<in> set flags),
                  lastIndex = 0,
                  matcher = rx_matcher r n\<rparr>)
      else Inl SyntaxError)"

text \<open>
  \<open>scan m s i k\<close> tries the \<open>k\<close> positions from \<open>i\<close> on and stops at the first match.
\<close>

fun scan :: "matcher \<Rightarrow> string \<Rightarrow> nat \<Rightarrow> nat \<Rightarrow> RegExpExecArray option" where
  "scan m s i 0 = None"
| "scan m s i (Suc k) =
     (case m s i of
        Some (w, caps) \<Rightarrow> Some \<lparr>index = i, matched = w, captures = caps\<rparr>
      | None \<Rightarrow> scan m s (Suc i) k)"

text \<open>
  \<open>regex.exec(s)\<close>.  A global regex starts at its \<open>lastIndex\<close> and stores the end of the
  match there (0 after a failure); any other regex starts at 0 and leaves \<open>lastIndex\<close>
  alone.  The result is the match, if any, and the regex after the call.
\<close>

definition RegExp_exec :: "RegExp \<Rightarrow> string \<Rightarrow> RegExpExecArray option \<times> RegExp" where
  "RegExp_exec re s =
     (let li = (if global re then lastIndex re else 0) in
      if li > length s then (None, if global re then re\<lparr>lastIndex := 0\<rparr> else re)
      else
        (case scan (matcher re) s li (Suc (length s) - li) of
           None \<Rightarrow> (None, if global re then re\<lparr>lastIndex := 0\<rparr> else re)
         | Some m \<Rightarrow>
             (Some m,
              if global re then re\<lparr>lastIndex := index m + length (matched m)\<rparr> else re)))"

definition RegExp_test :: "RegExp \<Rightarrow> string \<Rightarrow> bool \<times> RegExp" where
  "RegExp_test re s = (case RegExp_exec re s of (m, re') \<Rightarrow> (m \<noteq> None, re'))"


section \<open>filter.ts: the Filter class\<close>

datatype FocusAction = INCLUDED | EXCLUDED | NONE

datatype FilterMode = TEXT | REGEX

text \<open>
  The fields of \<open>Filter\<close> that the engine reads; colour, icon and decoration are left
  out.  \<open>filter_id\<close> is the field \<open>id\<close>, and \<open>priority\<close>, \<open>focusAction\<close>,
  \<open>isHighlighted\<close>, \<open>lineCache\<close> and \<open>analyzedUris\<close> are the private fields behind
  the accessors of the same name.
\<close>

record Filter =
  regex :: RegExp
  mode :: FilterMode
  textPattern :: string
  filter_id :: string
  isHighlighted :: bool
  focusAction :: FocusAction
  priority :: number
  lineCache :: "string \<rightharpoonup> nat list"
  analyzedUris :: "string set"

text \<open>
  \<open>new Filter(regex, color, priority)\<close>; the identity that \<open>generateId\<close> draws is a
  parameter, and an omitted priority is 50.
\<close>

definition Filter_new :: "RegExp \<Rightarrow> string \<Rightarrow> number option \<Rightarrow> Filter" where
  "Filter_new re fid p =
     \<lparr>regex = re, mode = REGEX, textPattern = [], filter_id = fid, isHighlighted = True,
      focusAction = INCLUDED,
      priority = Math_max (Num 0) (Math_min (Num 100) (case p of None \<Rightarrow> Num 50 | Some v \<Rightarrow> v)),
      lineCache = Map.empty, analyzedUris = {}\<rparr>"

definition set_priority :: "Filter \<Rightarrow> number \<Rightarrow> Filter" where
  "set_priority f v = f\<lparr>priority := Math_max (Num 0) (Math_min (Num 100) v)\<rparr>"

definition updateCache :: "Filter \<Rightarrow> string \<Rightarrow> nat list \<Rightarrow> Filter" where
  "updateCache f uri matchedLines =
     f\<lparr>lineCache := (lineCache f)(uri \<mapsto> matchedLines),
       analyzedUris := insert uri (analyzedUris f)\<rparr>"

definition isAnalyzed :: "Filter \<Rightarrow> string \<Rightarrow> bool" where
  "isAnalyzed f uri = (uri \<in> analyzedUris f)"

text \<open>
  \<open>clearCache(uri?)\<close> tests \<open>if (uri)\<close>: an omitted argument is falsy, and so is the
  empty string.
\<close>

definition clearCache :: "Filter \<Rightarrow> string option \<Rightarrow> Filter" where
  "clearCache f u =
     (case u of
        None \<Rightarrow> f\<lparr>lineCache := Map.empty, analyzedUris := {}\<rparr>
      | Some uri \<Rightarrow>
          if uri \<noteq> [] then
            f\<lparr>lineCache := (lineCache f)(uri := None), analyzedUris := analyzedUris f - {uri}\<rparr>
          else f\<lparr>lineCache := Map.empty, analyzedUris := {}\<rparr>)"

definition getMatchedLines :: "Filter \<Rightarrow> string \<Rightarrow> nat list" where
  "getMatchedLines f uri = (case lineCache f uri of None \<Rightarrow> [] | Some ls \<Rightarrow> ls)"

definition setRegex :: "Filter \<Rightarrow> RegExp \<Rightarrow> Filter" where
  "setRegex f newRegex = clearCache (f\<lparr>regex := newRegex\<rparr>) None"

text \<open>\<open>filter.test(line)\<close>; \<open>regex.test\<close> may move the \<open>lastIndex\<close> of a global regex.\<close>

definition Filter_test :: "Filter \<Rightarrow> string \<Rightarrow> bool \<times> Filter" where
  "Filter_test f line =
     (if mode f = TEXT then (String_includes line (textPattern f), f)
      else (case RegExp_test (regex f) line of (b, re') \<Rightarrow> (b, f\<lparr>regex := re'\<rparr>)))"

text \<open>The calls a client can make on the cache of a filter, and a sequence of them.\<close>

datatype cache_op = UpdateCache string "nat list" | ClearCache "string option"

fun apply_cache_op :: "cache_op \<Rightarrow> Filter \<Rightarrow> Filter" where
  "apply_cache_op (UpdateCache uri ls) f = updateCache f uri ls"
| "apply_cache_op (ClearCache u) f = clearCache f u"

definition run_cache_ops :: "cache_op list \<Rightarrow> Filter \<Rightarrow> Filter" where
  "run_cache_ops ops f = fold apply_cache_op ops f"


fun op_uri :: "cache_op \<Rightarrow> string option" where
  "op_uri (UpdateCache uri ls) = Some uri"
| "op_uri (ClearCache u) = u"


section \<open>commands.ts: compiling the pattern of a filter\<close>

text \<open>
  \<open>addFilter\<close> and \<open>editFilter\<close> compile the pattern the user typed.  In TEXT mode
  \<open>pattern.replace(/[.*+?^${}()|[\]\\]/g, '\\$&')\<close> puts a backslash before every syntax
  character, and the filter keeps the pattern as \<open>textPattern\<close>.
\<close>

definition escapeRegExp :: "string \<Rightarrow> string" where
  "escapeRegExp pattern =
     concat (map (\<lambda>c. if c \<in> set syntax_chars then [CHR 0x5C, c] else [c]) pattern)"

definition compileFilterPattern :: "FilterMode \<Rightarrow> string \<Rightarrow> error + RegExp \<times> string" where
  "compileFilterPattern m pattern =
     (if m = REGEX then
        (case RegExp_new pattern [] of Inl e \<Rightarrow> Inl e | Inr re \<Rightarrow> Inr (re, []))
      else
        (case RegExp_new (escapeRegExp pattern) [] of
           Inl e \<Rightarrow> Inl e
         | Inr re \<Rightarrow> Inr (re, pattern)))"

text \<open>
  \<open>addFilter\<close>: \<open>None\<close> is the return without a filter when no pattern was typed
  (\<open>if (!pattern) return\<close>), \<open>Inl\<close> the branch that shows "Invalid Pattern", \<open>Inr\<close> the
  filter that is stored.  \<open>editFilter\<close> accepts the empty pattern as well.
\<close>

definition addFilter :: "FilterMode \<Rightarrow> string \<Rightarrow> string \<Rightarrow> (error + Filter) option" where
  "addFilter m pattern fid =
     (if pattern = [] then None
      else Some (case compileFilterPattern m pattern of
                   Inl e \<Rightarrow> Inl e
                 | Inr (re, tp) \<Rightarrow> Inr ((Filter_new re fid None)\<lparr>mode := m, textPattern := tp\<rparr>)))"

definition editFilter :: "Filter \<Rightarrow> FilterMode \<Rightarrow> string \<Rightarrow> error + Filter" where
  "editFilter f m pattern =
     (case compileFilterPattern m pattern of
        Inl e \<Rightarrow> Inl e
      | Inr (re, tp) \<Rightarrow> Inr (setRegex (f\<lparr>mode := m, textPattern := tp\<rparr>) re))"


section \<open>utils.ts: the combined regex and the single-pass analysis\<close>

record FilterInfo =
  filterId :: string
  isExclude :: bool

record FilterResult =
  lines :: "nat list"
  isExclude :: bool

type_synonym filterMap = "(nat \<times> FilterInfo) list"
type_synonym filterResults = "(string \<times> FilterResult) list"
type_synonym winners = "(nat \<times> string) list"

text \<open>The comparator \<open>(a, b) => (b.priority ?? 50) - (a.priority ?? 50)\<close>.\<close>

definition by_priority_desc :: "Filter \<Rightarrow> Filter \<Rightarrow> number" where
  "by_priority_desc a b = num_sub (priority b) (priority a)"

definition buildCombinedRegex :: "Filter list \<Rightarrow> error + RegExp \<times> filterMap" where
  "buildCombinedRegex fs =
     (if fs = [] then
        (case RegExp_new ''(?!)'' [] of Inl e \<Rightarrow> Inl e | Inr re \<Rightarrow> Inr (re, []))
      else
        (let sorted = Array_sort by_priority_desc fs;
             patterns = map (\<lambda>f. ''('' @ source (regex f) @ '')'') sorted;
             fm = fold (\<lambda>(i, f) m.
                    AList.update (i + 1)
                      \<lparr>filterId = filter_id f, isExclude = (focusAction f = EXCLUDED)\<rparr> m)
                    (List.enumerate 0 sorted) [];
             combined = Array_join ''|'' patterns
         in case RegExp_new combined ''gm'' of Inl e \<Rightarrow> Inl e | Inr re \<Rightarrow> Inr (re, fm)))"

text \<open>
  The loop \<open>for (let i = 1; i < match.length; i++)\<close> over the captures of one match.
  The state is \<open>bestFilterIndex\<close> (\<open>None\<close> is \<open>Infinity\<close>) and \<open>filterResults\<close>.
  \<open>filterResults.get(id)!\<close> throws a TypeError when the map has no entry for \<open>id\<close>.
\<close>

fun check_groups ::
  "filterMap \<Rightarrow> nat \<Rightarrow> nat \<Rightarrow> string option list \<Rightarrow> nat option \<times> filterResults
     \<Rightarrow> error + nat option \<times> filterResults" where
  "check_groups fm lineIndex i [] st = Inr st"
| "check_groups fm lineIndex i (g # gs) (best, res) =
     (case g of
        None \<Rightarrow> check_groups fm lineIndex (Suc i) gs (best, res)
      | Some v \<Rightarrow>
          (case map_of fm i of
             None \<Rightarrow> check_groups fm lineIndex (Suc i) gs (best, res)
           | Some info \<Rightarrow>
               (case map_of res (filterId info) of
                  None \<Rightarrow> Inl TypeError
                | Some r \<Rightarrow>
                    check_groups fm lineIndex (Suc i) gs
                      (case best of
                         None \<Rightarrow> Some i
                       | Some b \<Rightarrow> if i < b then Some i else Some b,
                       AList.update (filterId info)
                         (r\<lparr>lines := Set_add lineIndex (lines r)\<rparr>) res))))"

text \<open>
  The loop \<open>while ((match = combinedRegex.exec(line)) !== null)\<close> on one line.  Nothing
  in the code bounds it, so it is a partial function: \<open>None\<close> is a loop that never ends,
  \<open>Some (Inl e)\<close> an exception, \<open>Some (Inr st)\<close> the state when \<open>exec\<close> returns null.
\<close>

partial_function (option) exec_loop ::
  "filterMap \<Rightarrow> string \<Rightarrow> nat \<Rightarrow> RegExp \<Rightarrow> nat option \<times> filterResults
     \<Rightarrow> (error + nat option \<times> filterResults) option" where
  "exec_loop fm line lineIndex re st =
     (case RegExp_exec re line of
        (None, re') \<Rightarrow> Some (Inr st)
      | (Some m, re') \<Rightarrow>
          (case check_groups fm lineIndex 1 (captures m) st of
             Inl e \<Rightarrow> Some (Inl e)
           | Inr st' \<Rightarrow>
               exec_loop fm line lineIndex
                 (if index m = lastIndex re' then re'\<lparr>lastIndex := Suc (lastIndex re')\<rparr> else re')
                 st'))"

declare exec_loop.simps [code]

text \<open>The body of \<open>lines.forEach((line, lineIndex) => ...)\<close>.\<close>

definition analyse_line ::
  "filterMap \<Rightarrow> RegExp \<Rightarrow> string \<Rightarrow> nat \<Rightarrow> filterResults \<times> winners
     \<Rightarrow> (error + filterResults \<times> winners) option" where
  "analyse_line fm re line lineIndex st =
     (case exec_loop fm line lineIndex (re\<lparr>lastIndex := 0\<rparr>) (None, fst st) of
        None \<Rightarrow> None
      | Some (Inl e) \<Rightarrow> Some (Inl e)
      | Some (Inr (best, res)) \<Rightarrow>
          Some (Inr (res,
            case best of
              None \<Rightarrow> snd st
            | Some b \<Rightarrow>
                (case map_of fm b of
                   None \<Rightarrow> snd st
                 | Some winner \<Rightarrow> AList.update lineIndex (filterId winner) (snd st)))))"

fun analyse_lines ::
  "filterMap \<Rightarrow> RegExp \<Rightarrow> string list \<Rightarrow> nat \<Rightarrow> filterResults \<times> winners
     \<Rightarrow> (error + filterResults \<times> winners) option" where
  "analyse_lines fm re [] lineIndex st = Some (Inr st)"
| "analyse_lines fm re (line # rest) lineIndex st =
     (case analyse_line fm re line lineIndex st of
        None \<Rightarrow> None
      | Some (Inl e) \<Rightarrow> Some (Inl e)
      | Some (Inr st') \<Rightarrow> analyse_lines fm re rest (Suc lineIndex) st')"

text \<open>\<open>filterMap.forEach\<close>: an empty line set for every filter of the map.\<close>

definition init_results :: "filterMap \<Rightarrow> filterResults" where
  "init_results fm =
     fold (\<lambda>(i, info) res.
        AList.update (filterId info)
          \<lparr>lines = [], isExclude = FilterInfo.isExclude info\<rparr> res) fm []"

definition performCombinedAnalysis ::
  "string \<Rightarrow> RegExp \<Rightarrow> filterMap \<Rightarrow> (error + filterResults \<times> winners) option" where
  "performCombinedAnalysis text combinedRegex fm =
     analyse_lines fm combinedRegex (split_lines text) 0 (init_results fm, [])"

text \<open>
  The two calls in a row, as \<open>applyFilterHighlights\<close> and \<open>performOnDemandAnalysis\<close> make
  them.
\<close>

definition combinedAnalysis ::
  "Filter list \<Rightarrow> string \<Rightarrow> (error + filterResults \<times> winners) option" where
  "combinedAnalysis fs text =
     (case buildCombinedRegex fs of
        Inl e \<Rightarrow> Some (Inl e)
      | Inr (re, fm) \<Rightarrow> performCombinedAnalysis text re fm)"


section \<open>focusProvider.ts: the focus view\<close>

text \<open>
  A project holds its filters in a \<open>Map\<close> keyed by identity; a document is the list of
  its lines.
\<close>

record Project =
  filters :: "(string \<times> Filter) list"
  filteringEnabled :: bool

type_synonym TextDocument = "string list"

definition lineCount :: "TextDocument \<Rightarrow> nat" where
  "lineCount doc = length doc"

definition lineAt :: "TextDocument \<Rightarrow> nat \<Rightarrow> string" where
  "lineAt doc n = doc ! n"

text \<open>\<open>Array.from(this.project.filters.values())\<close>; a provider without project has none.\<close>

definition projectFilters :: "Project option \<Rightarrow> Filter list" where
  "projectFilters project = (case project of None \<Rightarrow> [] | Some p \<Rightarrow> map snd (filters p))"

definition getActiveFiltersSorted :: "Project option \<Rightarrow> Filter list \<times> Filter list" where
  "getActiveFiltersSorted project =
     (case project of
        None \<Rightarrow> ([], [])
      | Some p \<Rightarrow>
          fold (\<lambda>f (inclusive, exclusive).
                  if focusAction f = EXCLUDED then (inclusive, exclusive @ [f])
                  else if focusAction f = INCLUDED then (inclusive @ [f], exclusive)
                  else (inclusive, exclusive))
            (Array_sort by_priority_desc
               (filter (\<lambda>f. focusAction f \<noteq> NONE) (projectFilters project)))
            ([], []))"

text \<open>
  The set \<open>resultLines\<close> that \<open>generateFilteredContent\<close> and \<open>getVisibleLines\<close> both build:
  the cached lines of the inclusive filters, or every line of the document when there
  is no inclusive filter; then the cached lines of the exclusive filters are deleted.
\<close>

definition collectResultLines ::
  "Filter list \<Rightarrow> Filter list \<Rightarrow> string \<Rightarrow> nat \<Rightarrow> nat list" where
  "collectResultLines inclusive exclusive uri n =
     (let resultLines =
            (if inclusive \<noteq> [] then
               fold (\<lambda>f acc. fold Set_add (getMatchedLines f uri) acc) inclusive []
             else fold Set_add [0..<n] [])
      in fold (\<lambda>f acc. fold Set_delete (getMatchedLines f uri) acc) exclusive resultLines)"

definition getVisibleLines :: "Project option \<Rightarrow> string \<Rightarrow> TextDocument \<Rightarrow> nat list" where
  "getVisibleLines project originalUri originalDoc =
     (case getActiveFiltersSorted project of
        (inclusive, exclusive) \<Rightarrow>
          sort (collectResultLines inclusive exclusive originalUri (lineCount originalDoc)))"

text \<open>
  The line numbers whose text \<open>generateFilteredContent\<close> pushes to \<open>resultArr\<close>, in
  order, and the content it returns.
\<close>

definition renderedLines :: "Project option \<Rightarrow> string \<Rightarrow> TextDocument \<Rightarrow> nat list" where
  "renderedLines project originalUri document =
     (case getActiveFiltersSorted project of
        (inclusive, exclusive) \<Rightarrow>
          filter (\<lambda>lineNum. lineNum < lineCount document)
            (sort (collectResultLines inclusive exclusive originalUri (lineCount document))))"

definition generateFilteredContent :: "Project option \<Rightarrow> string \<Rightarrow> TextDocument \<Rightarrow> string" where
  "generateFilteredContent project originalUri document =
     Array_join [CHR 0x0A] (map (lineAt document) (renderedLines project originalUri document))"


section \<open>Invariants of the analysis\<close>

text \<open>
  Predicates on the state of \<open>performCombinedAnalysis\<close>, used in the proofs below:
  every filter of the index map has an entry in \<open>filterResults\<close>; entries are never
  removed and their line sets only grow; the best index of the current line and the
  recorded winners name filters whose line set holds the line.
\<close>

definition covers :: "filterMap \<Rightarrow> filterResults \<Rightarrow> bool" where
  "covers fm res = (\<forall>i info. map_of fm i = Some info \<longrightarrow> map_of res (filterId info) \<noteq> None)"

definition grows :: "filterResults \<Rightarrow> filterResults \<Rightarrow> bool" where
  "grows res res' =
     (\<forall>k r. map_of res k = Some r \<longrightarrow> (\<exists>r'. map_of res' k = Some r' \<and> set (lines r) \<subseteq> set (lines r')))"

definition best_recorded :: "filterMap \<Rightarrow> nat \<Rightarrow> filterResults \<Rightarrow> nat option \<Rightarrow> bool" where
  "best_recorded fm lineIndex res best =
     (\<forall>b. best = Some b \<longrightarrow>
        (\<exists>info r. map_of fm b = Some info \<and> map_of res (filterId info) = Some r \<and>
           lineIndex \<in> set (lines r)))"

definition winners_recorded :: "filterResults \<Rightarrow> winners \<Rightarrow> bool" where
  "winners_recorded res win =
     (\<forall>n w. map_of win n = Some w \<longrightarrow> (\<exists>r. map_of res w = Some r \<and> n \<in> set (lines r)))"


text \<open>
  The entry of the index map that \<open>buildCombinedRegex\<close> makes for a filter.
\<close>

definition info_of :: "Filter \<Rightarrow> FilterInfo" where
  "info_of f = \<lparr>filterId = filter_id f, isExclude = (focusAction f = EXCLUDED)\<rparr>"

text \<open>
  The order of the winners.  \<open>ranked\<close>: every recorded line lies below the current line
  index, and the winner of a recorded line is a filter of the index map whose index is at
  most the index of every filter recorded on that line.  \<open>line_ranked\<close> is the same
  during the scan of line \<open>L\<close>, with \<open>bestFilterIndex\<close> for the winner.
\<close>

definition ranked :: "filterMap \<Rightarrow> filterResults \<Rightarrow> winners \<Rightarrow> nat \<Rightarrow> bool" where
  "ranked fm res win L =
     ((\<forall>k r m. map_of res k = Some r \<longrightarrow> m \<in> set (lines r) \<longrightarrow> m < L) \<and>
      (\<forall>k r n. map_of res k = Some r \<longrightarrow> n \<in> set (lines r) \<longrightarrow>
         (\<exists>b wi i ki. map_of fm b = Some wi \<and> map_of win n = Some (filterId wi) \<and>
            map_of fm i = Some ki \<and> filterId ki = k \<and> b \<le> i)))"

definition line_ranked ::
  "filterMap \<Rightarrow> filterResults \<Rightarrow> nat \<Rightarrow> nat option \<Rightarrow> filterResults \<Rightarrow> bool" where
  "line_ranked fm res0 L best res =
     ((\<forall>k r n. map_of res k = Some r \<longrightarrow> n \<in> set (lines r) \<longrightarrow> n \<noteq> L \<longrightarrow>
         (\<exists>r0. map_of res0 k = Some r0 \<and> n \<in> set (lines r0))) \<and>
      (\<forall>k r. map_of res k = Some r \<longrightarrow> L \<in> set (lines r) \<longrightarrow>
         (\<exists>b i ki. best = Some b \<and> map_of fm i = Some ki \<and> filterId ki = k \<and> b \<le> i)) \<and>
      (\<forall>b. best = Some b \<longrightarrow> map_of fm b \<noteq> None))"

text \<open>
  \<open>precedes x y xs\<close>: \<open>x\<close> occurs in \<open>xs\<close> before an occurrence of \<open>y\<close>.  \<open>prio\<close> reads a
  finite priority as a real number.
\<close>

definition precedes :: "'a \<Rightarrow> 'a \<Rightarrow> 'a list \<Rightarrow> bool" where
  "precedes x y xs = (\<exists>as bs cs. xs = as @ x # bs @ y # cs)"

definition prio :: "Filter \<Rightarrow> real" where
  "prio f = (case priority f of Num x \<Rightarrow> x | NaN \<Rightarrow> 0 | NegInf \<Rightarrow> 0 | PosInf \<Rightarrow> 0)"


section \<open>Examples used below\<close>

text \<open>A regex object that matches nothing, for examples in which the pattern plays no part.\<close>

definition blank_regex :: RegExp where
  "blank_regex = \<lparr>source = ''(?!)'', global = False, lastIndex = 0, matcher = (\<lambda>s i. None)\<rparr>"

text \<open>
  A log of five lines and a project with two filters whose caches are filled: an
  included filter that matched lines 1 and 3 and an excluded filter that matched line 3.
\<close>

definition sample_document :: TextDocument where
  "sample_document =
     [''line 0: info'', ''line 1: error'', ''line 2: warning'', ''line 3: error debug'',
      ''line 4: crash'']"

definition error_filter :: Filter where
  "error_filter = updateCache (Filter_new blank_regex ''filter-error'' None) ''file:log'' [1, 3]"

definition debug_filter :: Filter where
  "debug_filter =
     updateCache ((Filter_new blank_regex ''filter-debug'' None)\<lparr>focusAction := EXCLUDED\<rparr>)
       ''file:log'' [3]"

definition sample_project :: Project where
  "sample_project =
     \<lparr>filters = [(''filter-error'', error_filter), (''filter-debug'', debug_filter)],
      filteringEnabled = True\<rparr>"

text \<open>\<open>new RegExp(p)\<close> for a pattern \<open>p\<close> of the fragment.\<close>

definition regex_of :: "string \<Rightarrow> RegExp" where
  "regex_of p = (case RegExp_new p [] of Inr re \<Rightarrow> re | Inl e \<Rightarrow> blank_regex)"

text \<open>\<open>new RegExp('', 'g')\<close>: it matches the empty string at every position.\<close>

definition empty_everywhere :: RegExp where
  "empty_everywhere =
     \<lparr>source = ''(?:)'', global = True, lastIndex = 0, matcher = rx_matcher Empty 0\<rparr>"

text \<open>\<open>new RegExp('a')\<close>, a regex without the global flag.\<close>

definition first_a :: RegExp where
  "first_a = regex_of ''a''"

text \<open>Filters whose patterns overlap on a line.\<close>

definition error_100 :: Filter where
  "error_100 = Filter_new (regex_of ''error'') ''filter-error'' (Some (Num 100))"

definition err_10 :: Filter where
  "err_10 = Filter_new (regex_of ''err'') ''filter-err'' (Some (Num 10))"

definition db_error_10 :: Filter where
  "db_error_10 = Filter_new (regex_of ''db error'') ''filter-db-error'' (Some (Num 10))"

text \<open>The combined regex \<open>/(error)|(db error)/gm\<close> of two of them, with its index map.\<close>

definition sample_combined :: "RegExp \<times> filterMap" where
  "sample_combined =
     (case buildCombinedRegex [error_100, db_error_10] of
        Inr x \<Rightarrow> x
      | Inl e \<Rightarrow> (blank_regex, []))"


section \<open>The priority of a filter\<close>

lemma Math_clamp_range:
  "v \<noteq> NaN \<Longrightarrow>
     num_le (Num 0) (Math_max (Num 0) (Math_min (Num 100) v)) \<and>
     num_le (Math_max (Num 0) (Math_min (Num 100) v)) (Num 100)"
  by (cases v) (simp_all add: Math_max_def Math_min_def)

lemma Math_clamp_nearest:
  "Math_max (Num 0) (Math_min (Num 100) v) =
     (if v = NaN then NaN
      else if num_lt v (Num 0) then Num 0
      else if num_lt (Num 100) v then Num 100
      else v)"
  by (cases v) (simp_all add: Math_max_def Math_min_def)

text \<open>
  Claim C8 (priority clamp), as the code has it.  The constructor and the setter store
  \<open>Math.max(0, Math.min(100, value))\<close>.  For every argument other than NaN, the
  infinities included, the priority stored by the constructor and by the setter lies
  between 0 and 100; it is 0 for an argument below 0, 100 for an argument above 100, and
  the argument itself otherwise; an omitted constructor argument is 50.  NaN is the one
  number for which this fails: \<open>Math.min\<close> and \<open>Math.max\<close> hand it through.
\<close>

theorem priority_clamped:
  assumes "p \<noteq> Some NaN" and "v \<noteq> NaN"
  shows "num_le (Num 0) (priority (Filter_new re fid p)) \<and>
         num_le (priority (Filter_new re fid p)) (Num 100) \<and>
         priority (Filter_new re fid p) =
           (case p of
              None \<Rightarrow> Num 50
            | Some x \<Rightarrow>
                if num_lt x (Num 0) then Num 0 else if num_lt (Num 100) x then Num 100 else x) \<and>
         num_le (Num 0) (priority (set_priority f v)) \<and>
         num_le (priority (set_priority f v)) (Num 100) \<and>
         priority (set_priority f v) =
           (if num_lt v (Num 0) then Num 0 else if num_lt (Num 100) v then Num 100 else v)"
proof -
  let ?x = "case p of None \<Rightarrow> Num 50 | Some x \<Rightarrow> x"
  have x: "?x \<noteq> NaN"
    using assms(1) by (cases p) simp_all
  have new: "priority (Filter_new re fid p) = Math_max (Num 0) (Math_min (Num 100) ?x)"
    by (simp add: Filter_new_def)
  have "Math_max (Num 0) (Math_min (Num 100) ?x) =
          (case p of
             None \<Rightarrow> Num 50
           | Some x \<Rightarrow>
               if num_lt x (Num 0) then Num 0 else if num_lt (Num 100) x then Num 100 else x)"
    using x Math_clamp_nearest [of ?x] by (cases p) simp_all
  with Math_clamp_range [OF x] Math_clamp_range [OF assms(2)]
    Math_clamp_nearest [of v] assms(2) new
  show ?thesis
    by (simp add: set_priority_def)
qed

theorem priority_clamped_witness:
  "Some (Num 250) \<noteq> Some NaN \<and> Num (- 3) \<noteq> NaN \<and>
   priority (Filter_new blank_regex ''f'' (Some (Num 250))) = Num 100 \<and>
   priority (Filter_new blank_regex ''f'' (Some (Num (- 3)))) = Num 0 \<and>
   priority (Filter_new blank_regex ''f'' (Some NegInf)) = Num 0 \<and>
   priority (Filter_new blank_regex ''f'' (Some PosInf)) = Num 100 \<and>
   priority (Filter_new blank_regex ''f'' (Some (Num 42))) = Num 42 \<and>
   priority (Filter_new blank_regex ''f'' None) = Num 50 \<and>
   num_le (Num 0) (priority (Filter_new blank_regex ''f'' (Some (Num (- 3))))) \<and>
   num_le (priority (Filter_new blank_regex ''f'' (Some (Num 250)))) (Num 100) \<and>
   priority (set_priority (Filter_new blank_regex ''f'' None) (Num (- 3))) = Num 0 \<and>
   priority (set_priority (Filter_new blank_regex ''f'' None) (Num 250)) = Num 100 \<and>
   priority (set_priority (Filter_new blank_regex ''f'' None) NegInf) = Num 0 \<and>
   priority (set_priority (Filter_new blank_regex ''f'' None) (Num 42)) = Num 42"
  using priority_clamped [of "Some (Num 250)" "Num (- 3)" blank_regex "''f''"
      "Filter_new blank_regex ''f'' None"]
    priority_clamped [of "Some (Num (- 3))" "Num 250" blank_regex "''f''"
      "Filter_new blank_regex ''f'' None"]
    priority_clamped [of "Some NegInf" "NegInf" blank_regex "''f''"
      "Filter_new blank_regex ''f'' None"]
    priority_clamped [of "Some PosInf" "Num 42" blank_regex "''f''"
      "Filter_new blank_regex ''f'' None"]
    priority_clamped [of "Some (Num 42)" "Num 42" blank_regex "''f''"
      "Filter_new blank_regex ''f'' None"]
    priority_clamped [of None "Num 42" blank_regex "''f''"
      "Filter_new blank_regex ''f'' None"]
  by simp

text \<open>The claim as stated, for every numeric argument, fails at NaN.\<close>

theorem priority_NaN_counterexample:
  "\<not> (num_le (Num 0) (priority (Filter_new blank_regex ''f'' (Some NaN))) \<and>
      num_le (priority (Filter_new blank_regex ''f'' (Some NaN))) (Num 100))"
  by (simp add: Filter_new_def Math_max_def Math_min_def)


section \<open>The result cache of a filter\<close>

lemma updateCache_read:
  "isAnalyzed (updateCache f uri ls) uri \<and> getMatchedLines (updateCache f uri ls) uri = ls"
  by (simp add: isAnalyzed_def getMatchedLines_def updateCache_def)

lemma updateCache_other:
  "u \<noteq> uri \<Longrightarrow>
     isAnalyzed (updateCache f u ls) uri = isAnalyzed f uri \<and>
     lineCache (updateCache f u ls) uri = lineCache f uri"
  by (simp add: isAnalyzed_def updateCache_def)

lemma clearCache_uri:
  "u \<noteq> [] \<Longrightarrow>
     isAnalyzed (clearCache f (Some u)) uri = (uri \<noteq> u \<and> isAnalyzed f uri) \<and>
     lineCache (clearCache f (Some u)) uri = (if uri = u then None else lineCache f uri)"
  by (auto simp: isAnalyzed_def clearCache_def)

lemma clearCache_all:
  "lineCache (clearCache f None) = Map.empty \<and> analyzedUris (clearCache f None) = {}"
  by (simp add: clearCache_def)

lemma clearCache_empty_string: "clearCache f (Some []) = clearCache f None"
  by (simp add: clearCache_def)

lemma cache_op_frame:
  assumes "op_uri op = Some u" and "u \<noteq> uri" and "u \<noteq> []"
  shows "isAnalyzed (apply_cache_op op f) uri = isAnalyzed f uri \<and>
         lineCache (apply_cache_op op f) uri = lineCache f uri"
  using assms updateCache_other [of u uri f] clearCache_uri [of u f uri]
  by (cases op) auto

lemma run_cache_ops_frame:
  assumes "\<forall>op \<in> set ops. \<exists>u. op_uri op = Some u \<and> u \<noteq> uri \<and> u \<noteq> []"
  shows "isAnalyzed (run_cache_ops ops f) uri = isAnalyzed f uri \<and>
         lineCache (run_cache_ops ops f) uri = lineCache f uri"
  using assms
proof (induction ops arbitrary: f)
  case Nil
  then show ?case by (simp add: run_cache_ops_def)
next
  case (Cons op ops)
  from Cons.prems obtain u where u: "op_uri op = Some u" "u \<noteq> uri" "u \<noteq> []"
    by auto
  have "run_cache_ops (op # ops) f = run_cache_ops ops (apply_cache_op op f)"
    by (simp add: run_cache_ops_def)
  with Cons.IH [of "apply_cache_op op f"] Cons.prems cache_op_frame [OF u, of f]
  show ?case by simp
qed

text \<open>
  Claim C6 (cache coherence), as the code has it: for document identities that are not
  the empty string.  After \<open>updateCache(uri, lines)\<close> the identity is analyzed and reads
  back exactly \<open>lines\<close>; this survives every later \<open>updateCache\<close> and \<open>clearCache(u)\<close> for
  other non-empty identities \<open>u\<close>.  \<open>clearCache(uri)\<close> removes the entry of \<open>uri\<close> from both
  structures and leaves every other identity as it was; \<open>clearCache()\<close> empties both
  structures.
\<close>

theorem cache_coherence:
  assumes "uri \<noteq> []"
      and "\<forall>op \<in> set ops. \<exists>u. op_uri op = Some u \<and> u \<noteq> uri \<and> u \<noteq> []"
      and "other \<noteq> uri"
  shows "isAnalyzed (updateCache f uri ls) uri \<and>
         getMatchedLines (updateCache f uri ls) uri = ls \<and>
         isAnalyzed (run_cache_ops ops (updateCache f uri ls)) uri \<and>
         getMatchedLines (run_cache_ops ops (updateCache f uri ls)) uri = ls \<and>
         \<not> isAnalyzed (clearCache f (Some uri)) uri \<and>
         lineCache (clearCache f (Some uri)) uri = None \<and>
         isAnalyzed (clearCache f (Some uri)) other = isAnalyzed f other \<and>
         lineCache (clearCache f (Some uri)) other = lineCache f other \<and>
         getMatchedLines (clearCache f (Some uri)) other = getMatchedLines f other \<and>
         lineCache (clearCache f None) = Map.empty \<and>
         analyzedUris (clearCache f None) = {}"
proof -
  have a: "isAnalyzed (updateCache f uri ls) uri"
    and b: "getMatchedLines (updateCache f uri ls) uri = ls"
    using updateCache_read [of f uri ls] by simp_all
  have c: "isAnalyzed (run_cache_ops ops (updateCache f uri ls)) uri"
    and c': "lineCache (run_cache_ops ops (updateCache f uri ls)) uri =
             lineCache (updateCache f uri ls) uri"
    using run_cache_ops_frame [OF assms(2), of "updateCache f uri ls"] a by simp_all
  have d: "getMatchedLines (run_cache_ops ops (updateCache f uri ls)) uri = ls"
    using c' b by (simp add: getMatchedLines_def)
  have e: "\<not> isAnalyzed (clearCache f (Some uri)) uri"
    and e': "lineCache (clearCache f (Some uri)) uri = None"
    using clearCache_uri [OF assms(1), of f uri] by simp_all
  have g: "isAnalyzed (clearCache f (Some uri)) other = isAnalyzed f other"
    and g': "lineCache (clearCache f (Some uri)) other = lineCache f other"
    using clearCache_uri [OF assms(1), of f other] assms(3) by simp_all
  have g'': "getMatchedLines (clearCache f (Some uri)) other = getMatchedLines f other"
    using g' by (simp add: getMatchedLines_def)
  show ?thesis
    using a b c d e e' g g' g'' clearCache_all [of f] by simp
qed

theorem cache_coherence_witness:
  "''file:a'' \<noteq> [] \<and>
   isAnalyzed (run_cache_ops [UpdateCache ''file:b'' [7], ClearCache (Some ''file:b'')]
      (updateCache (Filter_new blank_regex ''f'' None) ''file:a'' [1, 3])) ''file:a'' \<and>
   getMatchedLines (run_cache_ops [UpdateCache ''file:b'' [7], ClearCache (Some ''file:b'')]
      (updateCache (Filter_new blank_regex ''f'' None) ''file:a'' [1, 3])) ''file:a'' = [1, 3] \<and>
   \<not> isAnalyzed (clearCache (updateCache (Filter_new blank_regex ''f'' None) ''file:b'' [7])
        (Some ''file:a'')) ''file:a'' \<and>
   isAnalyzed (clearCache (updateCache (Filter_new blank_regex ''f'' None) ''file:b'' [7])
        (Some ''file:a'')) ''file:b''"
  using cache_coherence [of "''file:a''"
      "[UpdateCache ''file:b'' [7], ClearCache (Some ''file:b'')]"
      "''file:b''" "Filter_new blank_regex ''f'' None" "[1, 3]"]
    cache_coherence [of "''file:a''" "[]" "''file:b''"
      "updateCache (Filter_new blank_regex ''f'' None) ''file:b'' [7]" "[]"]
    updateCache_read [of "Filter_new blank_regex ''f'' None" "''file:b''" "[7]"]
  by simp

text \<open>
  The claim as stated, for every identity string, fails at the empty string:
  \<open>clearCache("")\<close> takes the branch of \<open>clearCache()\<close> and removes the entry of
  \<open>file:a\<close> as well.
\<close>

theorem clearCache_empty_uri_counterexample:
  "isAnalyzed (updateCache (Filter_new blank_regex ''f'' None) ''file:a'' [1]) ''file:a'' \<and>
   \<not> isAnalyzed
       (clearCache (updateCache (Filter_new blank_regex ''f'' None) ''file:a'' [1]) (Some []))
       ''file:a'' \<and>
   getMatchedLines
       (clearCache (updateCache (Filter_new blank_regex ''f'' None) ''file:a'' [1]) (Some []))
       ''file:a'' = []"
  by (simp add: isAnalyzed_def getMatchedLines_def clearCache_def updateCache_def)






section \<open>The focus view\<close>

lemma set_insort_by: "set (insort_by cmp x ys) = insert x (set ys)"
  by (induction ys) auto

lemma set_Array_sort: "set (Array_sort cmp xs) = set xs"
  by (induction xs) (simp_all add: Array_sort_def set_insort_by)

lemma set_fold_Set_add: "set (fold Set_add xs acc) = set xs \<union> set acc"
  by (induction xs arbitrary: acc) (auto simp: Set_add_def)

lemma set_fold_Set_delete: "set (fold Set_delete xs acc) = set acc - set xs"
  by (induction xs arbitrary: acc) (auto simp: Set_delete_def)

lemma set_fold_add_all:
  "set (fold (\<lambda>f acc. fold Set_add (g f) acc) fs acc) = (\<Union>f \<in> set fs. set (g f)) \<union> set acc"
  by (induction fs arbitrary: acc) (auto simp: set_fold_Set_add)

lemma set_fold_delete_all:
  "set (fold (\<lambda>f acc. fold Set_delete (g f) acc) fs acc) = set acc - (\<Union>f \<in> set fs. set (g f))"
  by (induction fs arbitrary: acc) (auto simp: set_fold_Set_delete)

lemma fold_partition:
  "fold (\<lambda>f (inclusive, exclusive).
            if focusAction f = EXCLUDED then (inclusive, exclusive @ [f])
            else if focusAction f = INCLUDED then (inclusive @ [f], exclusive)
            else (inclusive, exclusive)) fs (a, b) =
   (a @ filter (\<lambda>f. focusAction f = INCLUDED) fs, b @ filter (\<lambda>f. focusAction f = EXCLUDED) fs)"
  by (induction fs arbitrary: a b) auto

lemma getActiveFiltersSorted_sets:
  assumes "getActiveFiltersSorted project = (inclusive, exclusive)"
  shows "set inclusive = {f \<in> set (projectFilters project). focusAction f = INCLUDED}"
    and "set exclusive = {f \<in> set (projectFilters project). focusAction f = EXCLUDED}"
  using assms
  by (force simp: getActiveFiltersSorted_def projectFilters_def fold_partition set_Array_sort
      split: option.splits)+

lemma set_collectResultLines:
  "set (collectResultLines inclusive exclusive uri n) =
     (if inclusive \<noteq> [] then (\<Union>f \<in> set inclusive. set (getMatchedLines f uri)) else {0..<n})
      - (\<Union>f \<in> set exclusive. set (getMatchedLines f uri))"
  by (simp add: collectResultLines_def Let_def set_fold_delete_all set_fold_add_all
      set_fold_Set_add)

lemma distinct_fold_Set_add: "distinct acc \<Longrightarrow> distinct (fold Set_add xs acc)"
  by (induction xs arbitrary: acc) (simp_all add: Set_add_def)

lemma distinct_fold_Set_delete: "distinct acc \<Longrightarrow> distinct (fold Set_delete xs acc)"
  by (induction xs arbitrary: acc) (simp_all add: Set_delete_def distinct_removeAll)

lemma distinct_fold_add_all:
  "distinct acc \<Longrightarrow> distinct (fold (\<lambda>f acc. fold Set_add (g f) acc) fs acc)"
  by (induction fs arbitrary: acc) (simp_all add: distinct_fold_Set_add)

lemma distinct_fold_delete_all:
  "distinct acc \<Longrightarrow> distinct (fold (\<lambda>f acc. fold Set_delete (g f) acc) fs acc)"
  by (induction fs arbitrary: acc) (simp_all add: distinct_fold_Set_delete)

lemma distinct_collectResultLines: "distinct (collectResultLines inclusive exclusive uri n)"
  by (simp add: collectResultLines_def Let_def distinct_fold_delete_all distinct_fold_add_all
      distinct_fold_Set_add)

lemma inclusive_empty_iff:
  assumes "getActiveFiltersSorted project = (inclusive, exclusive)"
  shows "inclusive = [] \<longleftrightarrow> (\<forall>f \<in> set (projectFilters project). focusAction f \<noteq> INCLUDED)"
proof
  assume "inclusive = []"
  with getActiveFiltersSorted_sets(1) [OF assms]
  show "\<forall>f \<in> set (projectFilters project). focusAction f \<noteq> INCLUDED"
    by auto
next
  assume "\<forall>f \<in> set (projectFilters project). focusAction f \<noteq> INCLUDED"
  with getActiveFiltersSorted_sets(1) [OF assms] have "set inclusive = {}" by auto
  then show "inclusive = []" by simp
qed

lemma renderedLines_member:
  "n \<in> set (renderedLines project uri document) \<longleftrightarrow>
     n < lineCount document \<and>
     ((\<forall>f \<in> set (projectFilters project). focusAction f \<noteq> INCLUDED) \<or>
      (\<exists>f \<in> set (projectFilters project).
         focusAction f = INCLUDED \<and> n \<in> set (getMatchedLines f uri))) \<and>
     \<not> (\<exists>f \<in> set (projectFilters project).
         focusAction f = EXCLUDED \<and> n \<in> set (getMatchedLines f uri))"
proof -
  obtain inclusive exclusive where ae: "getActiveFiltersSorted project = (inclusive, exclusive)"
    by (cases "getActiveFiltersSorted project")
  note sets = getActiveFiltersSorted_sets [OF ae]
  have "n \<in> set (renderedLines project uri document) \<longleftrightarrow>
          n < lineCount document \<and>
          n \<in> set (collectResultLines inclusive exclusive uri (lineCount document))"
    using ae by (auto simp: renderedLines_def)
  also have "\<dots> \<longleftrightarrow> n < lineCount document \<and>
      (inclusive = [] \<or> (\<exists>f \<in> set inclusive. n \<in> set (getMatchedLines f uri))) \<and>
      \<not> (\<exists>f \<in> set exclusive. n \<in> set (getMatchedLines f uri))"
    by (auto simp: set_collectResultLines)
  finally show ?thesis
    unfolding inclusive_empty_iff [OF ae] sets by blast
qed

lemma renderedLines_sorted_distinct:
  "sorted (renderedLines project uri document) \<and> distinct (renderedLines project uri document)"
proof -
  obtain inclusive exclusive where ae: "getActiveFiltersSorted project = (inclusive, exclusive)"
    by (cases "getActiveFiltersSorted project")
  show ?thesis
    using ae by (simp add: renderedLines_def sorted_wrt_filter distinct_collectResultLines)
qed

text \<open>
  Claim C3 (focus-view inclusion law).  The content that \<open>generateFilteredContent\<close>
  returns consists of the lines of the document, in ascending order and joined by line
  feeds, whose number \<open>n\<close> satisfies: (no filter of the project is INCLUDED, or the cache of
  some INCLUDED filter holds \<open>n\<close>) and the cache of no EXCLUDED filter holds \<open>n\<close>.  These
  are the line numbers whose text the function pushes to \<open>resultArr\<close>, each once.  The
  exclusion is applied whether or not inclusive filters exist.
\<close>

theorem focus_view_inclusion_law:
  "renderedLines project uri document =
     filter (\<lambda>n.
        ((\<forall>f \<in> set (projectFilters project). focusAction f \<noteq> INCLUDED) \<or>
         (\<exists>f \<in> set (projectFilters project).
            focusAction f = INCLUDED \<and> n \<in> set (getMatchedLines f uri))) \<and>
        \<not> (\<exists>f \<in> set (projectFilters project).
            focusAction f = EXCLUDED \<and> n \<in> set (getMatchedLines f uri)))
       [0..<lineCount document] \<and>
   generateFilteredContent project uri document =
     Array_join [CHR 0x0A] (map (lineAt document)
       (filter (\<lambda>n.
          ((\<forall>f \<in> set (projectFilters project). focusAction f \<noteq> INCLUDED) \<or>
           (\<exists>f \<in> set (projectFilters project).
              focusAction f = INCLUDED \<and> n \<in> set (getMatchedLines f uri))) \<and>
          \<not> (\<exists>f \<in> set (projectFilters project).
              focusAction f = EXCLUDED \<and> n \<in> set (getMatchedLines f uri)))
         [0..<lineCount document]))"
proof -
  let ?law = "\<lambda>n.
        ((\<forall>f \<in> set (projectFilters project). focusAction f \<noteq> INCLUDED) \<or>
         (\<exists>f \<in> set (projectFilters project).
            focusAction f = INCLUDED \<and> n \<in> set (getMatchedLines f uri))) \<and>
        \<not> (\<exists>f \<in> set (projectFilters project).
            focusAction f = EXCLUDED \<and> n \<in> set (getMatchedLines f uri))"
  have "set (renderedLines project uri document) = set (filter ?law [0..<lineCount document])"
    using renderedLines_member [of _ project uri document] by auto
  moreover have "sorted (filter ?law [0..<lineCount document])"
    and "distinct (filter ?law [0..<lineCount document])"
    by (simp_all add: sorted_wrt_filter)
  ultimately have eq: "renderedLines project uri document = filter ?law [0..<lineCount document]"
    using renderedLines_sorted_distinct [of project uri document]
    by (intro sorted_distinct_set_unique) simp_all
  show ?thesis
    unfolding generateFilteredContent_def eq [symmetric] using eq by simp
qed

theorem focus_view_inclusion_law_witness:
  "generateFilteredContent (Some sample_project) ''file:log'' sample_document = ''line 1: error'' \<and>
   renderedLines (Some sample_project) ''file:log'' sample_document = [1] \<and>
   generateFilteredContent None ''file:log'' sample_document =
     ''line 0: info'' @ [CHR 0x0A] @ ''line 1: error'' @ [CHR 0x0A] @ ''line 2: warning'' @
     [CHR 0x0A] @ ''line 3: error debug'' @ [CHR 0x0A] @ ''line 4: crash''"
proof -
  have lc: "lineCount sample_document = 5"
    by (simp add: lineCount_def sample_document_def)
  have up: "[0..<5] = [0, 1, 2, 3, 4 :: nat]"
    by (simp add: upt_rec)
  have pf: "projectFilters (Some sample_project) = [error_filter, debug_filter]"
    by (simp add: projectFilters_def sample_project_def)
  have pn: "projectFilters None = []"
    by (simp add: projectFilters_def)
  have fa: "focusAction error_filter = INCLUDED" "focusAction debug_filter = EXCLUDED"
    by (simp_all add: error_filter_def debug_filter_def updateCache_def Filter_new_def)
  have ml: "getMatchedLines error_filter ''file:log'' = [1, 3]"
    "getMatchedLines debug_filter ''file:log'' = [3]"
    by (simp_all add: error_filter_def debug_filter_def updateCache_def getMatchedLines_def)
  show ?thesis
    using focus_view_inclusion_law [of "Some sample_project" "''file:log''" sample_document]
      focus_view_inclusion_law [of None "''file:log''" sample_document]
    by (simp add: lc up pf pn fa ml) (simp add: lineAt_def sample_document_def)
qed


section \<open>The exec loop and the single-pass analysis\<close>

lemma scan_index: "scan m s i k = Some r \<Longrightarrow> i \<le> index r \<and> index r < i + k"
proof (induction k arbitrary: i)
  case 0
  then show ?case by simp
next
  case (Suc k)
  show ?case
  proof (cases "m s i")
    case None
    with Suc.prems have "scan m s (Suc i) k = Some r" by simp
    from Suc.IH [OF this] show ?thesis by simp
  next
    case (Some a)
    with Suc.prems show ?thesis by (cases a) auto
  qed
qed

lemma scan_never: "(\<And>j. m s j = None) \<Longrightarrow> scan m s i k = None"
  by (induction k arbitrary: i) simp_all

lemma RegExp_exec_fields:
  "RegExp_exec re s = (r, re') \<Longrightarrow>
     source re' = source re \<and> global re' = global re \<and> matcher re' = matcher re"
  by (auto simp: RegExp_exec_def Let_def split: if_splits option.splits)

lemma RegExp_exec_progress:
  assumes "global re" and "RegExp_exec re s = (Some m, re')"
  shows "lastIndex re \<le> index m \<and> lastIndex re \<le> length s \<and>
         lastIndex re' = index m + length (matched m)"
proof -
  from assms have le: "lastIndex re \<le> length s"
    and sc: "scan (matcher re) s (lastIndex re) (Suc (length s) - lastIndex re) = Some m"
    and li: "lastIndex re' = index m + length (matched m)"
    by (auto simp: RegExp_exec_def Let_def split: if_splits option.splits)
  from scan_index [OF sc] le li show ?thesis by simp
qed

lemma RegExp_exec_never:
  assumes "\<And>t j. matcher re t j = None"
  shows "fst (RegExp_exec re s) = None"
  using scan_never [of "matcher re" s] assms
  by (simp add: RegExp_exec_def Let_def)

lemma grows_refl: "grows res res"
  by (auto simp: grows_def)

lemma grows_trans: "grows a b \<Longrightarrow> grows b c \<Longrightarrow> grows a c"
  unfolding grows_def by (meson subset_trans)

lemma grows_add_line:
  assumes "map_of res k = Some r"
  shows "grows res (AList.update k (r\<lparr>lines := Set_add lineIndex (lines r)\<rparr>) res)"
  using assms by (auto simp: grows_def update_conv' Set_add_def)

lemma covers_grows: "covers fm res \<Longrightarrow> grows res res' \<Longrightarrow> covers fm res'"
  unfolding covers_def grows_def by fastforce

lemma best_recorded_grows:
  "best_recorded fm lineIndex res best \<Longrightarrow> grows res res' \<Longrightarrow> best_recorded fm lineIndex res' best"
  unfolding best_recorded_def grows_def by (metis subsetD)

lemma winners_recorded_grows:
  "winners_recorded res win \<Longrightarrow> grows res res' \<Longrightarrow> winners_recorded res' win"
  unfolding winners_recorded_def grows_def by (metis subsetD)

lemma check_groups_inv:
  assumes "check_groups fm lineIndex i gs (best, res) = Inr (best', res')"
      and "best_recorded fm lineIndex res best"
  shows "best_recorded fm lineIndex res' best' \<and> grows res res'"
  using assms
proof (induction gs arbitrary: i best res)
  case Nil
  then show ?case by (simp add: grows_refl)
next
  case (Cons g gs)
  show ?case
  proof (cases g)
    case None
    with Cons.prems Cons.IH [of "Suc i" best res] show ?thesis by simp
  next
    case (Some v)
    show ?thesis
    proof (cases "map_of fm i")
      case None
      with Some Cons.prems Cons.IH [of "Suc i" best res] show ?thesis by simp
    next
      case info: (Some info)
      show ?thesis
      proof (cases "map_of res (filterId info)")
        case None
        with Some info Cons.prems show ?thesis by simp
      next
        case r: (Some r)
        define res1 where "res1 = AList.update (filterId info) (r\<lparr>lines := Set_add lineIndex (lines r)\<rparr>) res"
        define best1 where "best1 = (case best of None \<Rightarrow> Some i | Some b \<Rightarrow> if i < b then Some i else Some b)"
        have g1: "grows res res1"
          unfolding res1_def by (rule grows_add_line [OF r])
        have new: "map_of res1 (filterId info) = Some (r\<lparr>lines := Set_add lineIndex (lines r)\<rparr>)"
          by (simp add: res1_def update_conv')
        have here: "best_recorded fm lineIndex res1 (Some i)"
          unfolding best_recorded_def using info new by (auto simp: Set_add_def)
        have old: "best_recorded fm lineIndex res1 best"
          by (rule best_recorded_grows [OF Cons.prems(2) g1])
        have b1: "best_recorded fm lineIndex res1 best1"
          using here old unfolding best1_def by (auto split: option.splits)
        have step: "check_groups fm lineIndex (Suc i) gs (best1, res1) = Inr (best', res')"
          using Cons.prems(1) Some info r by (simp add: res1_def best1_def)
        from Cons.IH [OF step b1] g1 show ?thesis
          by (auto intro: grows_trans)
      qed
    qed
  qed
qed

lemma check_groups_grows:
  assumes "check_groups fm lineIndex i gs (best, res) = Inr (best', res')"
  shows "grows res res'"
  using assms
proof (induction gs arbitrary: i best res)
  case Nil
  then show ?case by (simp add: grows_refl)
next
  case (Cons g gs)
  show ?case
  proof (cases g)
    case None
    with Cons.prems Cons.IH [of "Suc i" best res] show ?thesis by simp
  next
    case (Some v)
    show ?thesis
    proof (cases "map_of fm i")
      case None
      with Some Cons.prems Cons.IH [of "Suc i" best res] show ?thesis by simp
    next
      case info: (Some info)
      show ?thesis
      proof (cases "map_of res (filterId info)")
        case None
        with Some info Cons.prems show ?thesis by simp
      next
        case r: (Some r)
        from Cons.prems Some info r Cons.IH grows_add_line [OF r, of lineIndex]
        show ?thesis by (auto intro: grows_trans)
      qed
    qed
  qed
qed

lemma check_groups_total:
  assumes "covers fm res"
  shows "\<exists>st'. check_groups fm lineIndex i gs (best, res) = Inr st'"
  using assms
proof (induction gs arbitrary: i best res)
  case Nil
  then show ?case by simp
next
  case (Cons g gs)
  show ?case
  proof (cases g)
    case None
    with Cons.IH [OF Cons.prems, of "Suc i" best] show ?thesis by simp
  next
    case (Some v)
    show ?thesis
    proof (cases "map_of fm i")
      case None
      with Some Cons.IH [OF Cons.prems, of "Suc i" best] show ?thesis by simp
    next
      case info: (Some info)
      with Cons.prems obtain r where r: "map_of res (filterId info) = Some r"
        by (auto simp: covers_def)
      have "covers fm (AList.update (filterId info) (r\<lparr>lines := Set_add lineIndex (lines r)\<rparr>) res)"
        by (rule covers_grows [OF Cons.prems grows_add_line [OF r]])
      from Cons.IH [OF this] Some info r show ?thesis by simp
    qed
  qed
qed


lemma exec_loop_inv:
  assumes "exec_loop fm line lineIndex re st = Some y"
  shows "\<forall>best' res'. y = Inr (best', res') \<longrightarrow> best_recorded fm lineIndex (snd st) (fst st) \<longrightarrow>
           best_recorded fm lineIndex res' best' \<and> grows (snd st) res'"
  using assms
proof (induction fm line lineIndex re st y rule: exec_loop.raw_induct [rotated 1, consumes 1])
  case (1 loop fm line lineIndex re st y)
  obtain mo re' where ex: "RegExp_exec re line = (mo, re')"
    by (cases "RegExp_exec re line")
  show ?case
  proof (cases mo)
    case None
    with 1(2) ex have "y = Inr st" by simp
    then show ?thesis by (auto simp: grows_refl)
  next
    case (Some m)
    show ?thesis
    proof (cases "check_groups fm lineIndex 1 (captures m) st")
      case (Inl e)
      with 1(2) ex Some have "y = Inl e" by simp
      then show ?thesis by simp
    next
      case (Inr st1)
      with 1(2) ex Some
      have rec: "loop fm line lineIndex
                   (if index m = lastIndex re' then re'\<lparr>lastIndex := Suc (lastIndex re')\<rparr> else re')
                   st1 = Some y"
        by simp
      have cg: "check_groups fm lineIndex 1 (captures m) (fst st, snd st) = Inr (fst st1, snd st1)"
        using Inr by simp
      show ?thesis
      proof (intro allI impI)
        fix best' res'
        assume y: "y = Inr (best', res')" and b: "best_recorded fm lineIndex (snd st) (fst st)"
        from check_groups_inv [OF cg b]
        have b1: "best_recorded fm lineIndex (snd st1) (fst st1)" and g1: "grows (snd st) (snd st1)"
          by simp_all
        from 1(1) [OF rec] y b1
        have "best_recorded fm lineIndex res' best'" and "grows (snd st1) res'"
          by simp_all
        with g1 show "best_recorded fm lineIndex res' best' \<and> grows (snd st) res'"
          by (auto intro: grows_trans)
      qed
    qed
  qed
qed

lemma exec_loop_no_error:
  assumes "exec_loop fm line lineIndex re st = Some y"
  shows "covers fm (snd st) \<longrightarrow> (\<exists>st'. y = Inr st')"
  using assms
proof (induction fm line lineIndex re st y rule: exec_loop.raw_induct [rotated 1, consumes 1])
  case (1 loop fm line lineIndex re st y)
  obtain mo re' where ex: "RegExp_exec re line = (mo, re')"
    by (cases "RegExp_exec re line")
  show ?case
  proof
    assume cov: "covers fm (snd st)"
    show "\<exists>st'. y = Inr st'"
    proof (cases mo)
      case None
      with 1(2) ex show ?thesis by auto
    next
      case (Some m)
      from check_groups_total [OF cov, of lineIndex 1 "captures m" "fst st"]
      obtain st1 where cg: "check_groups fm lineIndex 1 (captures m) st = Inr st1"
        by auto
      with 1(2) ex Some
      have rec: "loop fm line lineIndex
                   (if index m = lastIndex re' then re'\<lparr>lastIndex := Suc (lastIndex re')\<rparr> else re')
                   st1 = Some y"
        by simp
      have "check_groups fm lineIndex 1 (captures m) (fst st, snd st) = Inr (fst st1, snd st1)"
        using cg by simp
      have "check_groups fm lineIndex 1 (captures m) (fst st, snd st) = Inr (fst st1, snd st1)"
        using cg by simp
      then have "grows (snd st) (snd st1)"
        by (rule check_groups_grows)
      with cov have "covers fm (snd st1)" by (rule covers_grows)
      with 1(1) [OF rec] show ?thesis by simp
    qed
  qed
qed


lemma exec_loop_terminates:
  assumes "global re"
  shows "\<exists>y. exec_loop fm line lineIndex re st = Some y"
  using assms
proof (induction "Suc (length line) - lastIndex re" arbitrary: re st rule: less_induct)
  case less
  obtain mo re' where ex: "RegExp_exec re line = (mo, re')"
    by (cases "RegExp_exec re line")
  show ?case
  proof (cases mo)
    case None
    with ex show ?thesis by (subst exec_loop.simps) simp
  next
    case (Some m)
    show ?thesis
    proof (cases "check_groups fm lineIndex 1 (captures m) st")
      case (Inl e)
      with ex Some show ?thesis by (subst exec_loop.simps) simp
    next
      case (Inr st1)
      define re1 where
        "re1 = (if index m = lastIndex re' then re'\<lparr>lastIndex := Suc (lastIndex re')\<rparr> else re')"
      from RegExp_exec_fields [OF ex] less.prems have g': "global re'" by simp
      then have g1: "global re1" by (simp add: re1_def)
      from RegExp_exec_progress [OF less.prems] ex Some
      have p: "lastIndex re \<le> index m" "lastIndex re \<le> length line"
        "lastIndex re' = index m + length (matched m)"
        by simp_all
      have "lastIndex re < lastIndex re1"
        using p by (cases "matched m") (auto simp: re1_def)
      with p(2) have "Suc (length line) - lastIndex re1 < Suc (length line) - lastIndex re"
        by simp
      from less.hyps [OF this g1] obtain y where "exec_loop fm line lineIndex re1 st1 = Some y"
        by blast
      with ex Some Inr show ?thesis
        by (subst exec_loop.simps) (simp add: re1_def)
    qed
  qed
qed

lemma exec_loop_never:
  assumes "\<And>t j. matcher re t j = None"
  shows "exec_loop fm line lineIndex re st = Some (Inr st)"
proof -
  obtain mo re' where ex: "RegExp_exec re line = (mo, re')"
    by (cases "RegExp_exec re line")
  with RegExp_exec_never [of re line] assms have "mo = None" by simp
  with ex show ?thesis by (subst exec_loop.simps) simp
qed

lemma keys_init_step:
  "fst ` set (fold (\<lambda>(i, info) res.
        AList.update (filterId info) \<lparr>lines = [], isExclude = FilterInfo.isExclude info\<rparr> res) fm acc) =
     fst ` set acc \<union> (filterId \<circ> snd) ` set fm"
proof (induction fm arbitrary: acc)
  case Nil
  then show ?case by simp
next
  case (Cons p fm)
  obtain i info where p: "p = (i, info)" by (cases p)
  show ?case
    unfolding p by (simp add: Cons.IH dom_update)
qed

lemma covers_init_results: "covers fm (init_results fm)"
proof -
  have "filterId info \<in> fst ` set (init_results fm)" if "map_of fm i = Some info" for i info
  proof -
    from that have "(i, info) \<in> set fm" by (rule map_of_SomeD)
    then have "filterId info \<in> (filterId \<circ> snd) ` set fm" by force
    then show ?thesis by (simp add: init_results_def keys_init_step)
  qed
  then show ?thesis
    unfolding covers_def by (metis domD dom_map_of_conv_image_fst domIff)
qed

lemma analyse_line_inv:
  assumes "analyse_line fm re line lineIndex (res, win) = Some (Inr (res', win'))"
      and "winners_recorded res win"
  shows "winners_recorded res' win' \<and> grows res res'"
proof -
  from assms(1) obtain best where
    loop: "exec_loop fm line lineIndex (re\<lparr>lastIndex := 0\<rparr>) (None, res) = Some (Inr (best, res'))"
    and win': "win' = (case best of None \<Rightarrow> win
                 | Some b \<Rightarrow> (case map_of fm b of None \<Rightarrow> win
                     | Some winner \<Rightarrow> AList.update lineIndex (filterId winner) win))"
    by (auto simp: analyse_line_def split: option.splits sum.splits)
  have "best_recorded fm lineIndex res None"
    by (simp add: best_recorded_def)
  with exec_loop_inv [OF loop]
  have b: "best_recorded fm lineIndex res' best" and g: "grows res res'"
    by simp_all
  have old: "winners_recorded res' win"
    by (rule winners_recorded_grows [OF assms(2) g])
  have "winners_recorded res' win'"
  proof (cases best)
    case None
    with win' old show ?thesis by simp
  next
    case (Some b')
    with b obtain info r where i: "map_of fm b' = Some info"
      and r: "map_of res' (filterId info) = Some r" "lineIndex \<in> set (lines r)"
      by (auto simp: best_recorded_def)
    from win' Some i have "win' = AList.update lineIndex (filterId info) win" by simp
    with old r show ?thesis
      by (auto simp: winners_recorded_def update_conv')
  qed
  with g show ?thesis by simp
qed

lemma analyse_line_no_error:
  assumes "analyse_line fm re line lineIndex st = Some y" and "covers fm (fst st)"
  shows "\<exists>st'. y = Inr st' \<and> covers fm (fst st')"
proof -
  from assms(1) obtain z where
    loop: "exec_loop fm line lineIndex (re\<lparr>lastIndex := 0\<rparr>) (None, fst st) = Some z"
    by (auto simp: analyse_line_def split: option.splits)
  from exec_loop_no_error [OF loop] assms(2) obtain best res' where z: "z = Inr (best, res')"
    by auto
  from exec_loop_inv [OF loop] z have "grows (fst st) res'"
    by (simp add: best_recorded_def)
  with assms(2) have "covers fm res'" by (rule covers_grows)
  with assms(1) loop z show ?thesis
    by (auto simp: analyse_line_def)
qed

lemma analyse_line_terminates:
  assumes "global re"
  shows "\<exists>y. analyse_line fm re line lineIndex st = Some y"
proof -
  from exec_loop_terminates [of "re\<lparr>lastIndex := 0\<rparr>" fm line lineIndex "(None, fst st)"] assms
  obtain z where "exec_loop fm line lineIndex (re\<lparr>lastIndex := 0\<rparr>) (None, fst st) = Some z"
    by auto
  then show ?thesis
    by (auto simp: analyse_line_def split: sum.splits)
qed

lemma analyse_line_never:
  assumes "\<And>t j. matcher re t j = None"
  shows "analyse_line fm re line lineIndex st = Some (Inr st)"
  using exec_loop_never [of "re\<lparr>lastIndex := 0\<rparr>" fm line lineIndex "(None, fst st)"] assms
  by (simp add: analyse_line_def)

lemma analyse_lines_inv:
  assumes "analyse_lines fm re ls lineIndex (res, win) = Some (Inr (res', win'))"
      and "winners_recorded res win"
  shows "winners_recorded res' win'"
  using assms
proof (induction ls arbitrary: lineIndex res win)
  case Nil
  then show ?case by simp
next
  case (Cons line ls)
  from Cons.prems(1) obtain res1 win1 where
    one: "analyse_line fm re line lineIndex (res, win) = Some (Inr (res1, win1))"
    and rest: "analyse_lines fm re ls (Suc lineIndex) (res1, win1) = Some (Inr (res', win'))"
    by (auto split: option.splits sum.splits)
  from analyse_line_inv [OF one Cons.prems(2)] have "winners_recorded res1 win1" by simp
  from Cons.IH [OF rest this] show ?case .
qed

lemma analyse_lines_terminates:
  assumes "global re" and "covers fm (fst st)"
  shows "\<exists>st'. analyse_lines fm re ls lineIndex st = Some (Inr st')"
  using assms(2)
proof (induction ls arbitrary: lineIndex st)
  case Nil
  then show ?case by simp
next
  case (Cons line ls)
  from analyse_line_terminates [OF assms(1)] obtain y where
    y: "analyse_line fm re line lineIndex st = Some y" by blast
  from analyse_line_no_error [OF y Cons.prems] obtain st1 where
    st1: "y = Inr st1" "covers fm (fst st1)" by blast
  from Cons.IH [OF st1(2), of "Suc lineIndex"] y st1(1) show ?case by simp
qed

lemma analyse_lines_never:
  assumes "\<And>t j. matcher re t j = None"
  shows "analyse_lines fm re ls lineIndex st = Some (Inr st)"
  by (induction ls arbitrary: lineIndex) (simp_all add: analyse_line_never [OF assms])

lemma winner_is_recorded_aux:
  assumes "performCombinedAnalysis text re fm = Some (Inr (res, win))"
  shows "winners_recorded res win"
proof -
  have "winners_recorded (init_results fm) []"
    by (simp add: winners_recorded_def)
  with assms show ?thesis
    unfolding performCombinedAnalysis_def by (rule analyse_lines_inv)
qed

text \<open>
  Claim C9 (winner membership).  For every text, every regex object and every index
  map: when \<open>performCombinedAnalysis\<close> returns and \<open>linePriorityWinners\<close> maps line \<open>n\<close> to
  the filter \<open>w\<close>, then \<open>filterResults\<close> has an entry for \<open>w\<close> and its line set holds \<open>n\<close>.
\<close>

theorem winner_is_member:
  assumes "performCombinedAnalysis text re fm = Some (Inr (res, win))"
      and "map_of win n = Some w"
  shows "\<exists>r. map_of res w = Some r \<and> n \<in> set (lines r)"
  using winner_is_recorded_aux [OF assms(1)] assms(2)
  by (simp add: winners_recorded_def)

theorem winner_is_member_witness:
  "performCombinedAnalysis ''db error'' (fst sample_combined) (snd sample_combined) =
     Some (Inr ([(''filter-error'', \<lparr>lines = [], isExclude = False\<rparr>),
                 (''filter-db-error'', \<lparr>lines = [0], isExclude = False\<rparr>)],
                [(0, ''filter-db-error'')])) \<and>
   (\<exists>r. map_of [(''filter-error'', \<lparr>lines = [], isExclude = False\<rparr>),
                 (''filter-db-error'', \<lparr>lines = [0], isExclude = False\<rparr>)]
            ''filter-db-error'' = Some r \<and> 0 \<in> set (lines r))"
proof -
  have run:
    "performCombinedAnalysis ''db error'' (fst sample_combined) (snd sample_combined) =
       Some (Inr ([(''filter-error'', \<lparr>lines = [], isExclude = False\<rparr>),
                   (''filter-db-error'', \<lparr>lines = [0], isExclude = False\<rparr>)],
                  [(0, ''filter-db-error'')]))"
    by code_simp
  from winner_is_member [OF run, of 0 "''filter-db-error''"] run show ?thesis
    by simp
qed

lemma never_regex: "RegExp_new ''(?!)'' [] =
  Inr \<lparr>source = ''(?!)'', global = False, lastIndex = 0, matcher = rx_matcher (NegLookahead Empty) 0\<rparr>"
  by (simp add: RegExp_new_def parse_pattern_def syntax_chars_def)

lemma never_matcher: "rx_matcher (NegLookahead Empty) 0 s i = None"
  by (simp add: rx_matcher_def)


section \<open>Patterns compiled in TEXT mode\<close>

lemma syntax_chars_mem:
  "CHR 0x5C \<in> set syntax_chars" "CHR ''('' \<in> set syntax_chars" "CHR '')'' \<in> set syntax_chars"
  "CHR ''|'' \<in> set syntax_chars" "CHR ''*'' \<in> set syntax_chars" "CHR ''.'' \<in> set syntax_chars"
  by (simp_all add: syntax_chars_def)

lemma tokenize_escaped_char:
  "tokenize ((if c \<in> set syntax_chars then [CHR 0x5C, c] else [c]) @ s) =
     map_option ((#) (TChr c)) (tokenize s)"
proof (cases "c \<in> set syntax_chars")
  case True
  then show ?thesis by simp
next
  case False
  with syntax_chars_mem have "c \<noteq> CHR 0x5C" "c \<noteq> CHR ''(''" "c \<noteq> CHR '')''"
    "c \<noteq> CHR ''|''" "c \<noteq> CHR ''*''" "c \<noteq> CHR ''.''"
    by auto
  with False show ?thesis by simp
qed

lemma tokenize_escapeRegExp: "tokenize (escapeRegExp p) = Some (map TChr p)"
proof (induction p)
  case Nil
  then show ?case by (simp add: escapeRegExp_def)
next
  case (Cons c p)
  have "escapeRegExp (c # p) =
          (if c \<in> set syntax_chars then [CHR 0x5C, c] else [c]) @ escapeRegExp p"
    by (simp add: escapeRegExp_def)
  with Cons.IH tokenize_escaped_char [of c "escapeRegExp p"] show ?case by simp
qed

lemma parse_tokens_literal:
  "parse_tokens (map TChr p) n (k, alts, cur) [] =
     Some (disj_of (alts @ [seq_of (cur @ map Chr p)]), n)"
  by (induction p arbitrary: cur) simp_all

lemma parse_pattern_escapeRegExp:
  "parse_pattern (escapeRegExp p) = Some (seq_of (map Chr p), 0)"
  using parse_tokens_literal [of p 0 GTop "[]" "[]"]
  by (simp add: parse_pattern_def tokenize_escapeRegExp)

lemma ms_seq_of_Cons:
  "ms (seq_of (r # rs)) s x = concat (map (ms (seq_of rs) s) (ms r s x))"
proof (cases rs)
  case Nil
  have "concat (map (ms Empty s) l) = l" for l
    by (induction l) auto
  with Nil show ?thesis by simp
next
  case (Cons r' rs')
  then show ?thesis by (cases x) simp
qed

lemma starts_with_drop:
  "starts_with (drop i s) (a # p) \<longleftrightarrow> i < length s \<and> s ! i = a \<and> starts_with (drop (Suc i) s) p"
proof (cases "i < length s")
  case True
  then have "drop i s = s ! i # drop (Suc i) s"
    by (simp add: Cons_nth_drop_Suc)
  with True show ?thesis by simp
next
  case False
  then show ?thesis by simp
qed

lemma ms_literal:
  "ms (seq_of (map Chr p)) s (i, c) =
     (if starts_with (drop i s) p then [(i + length p, c)] else [])"
proof (induction p arbitrary: i)
  case Nil
  then show ?case by simp
next
  case (Cons a p)
  have "ms (seq_of (map Chr (a # p))) s (i, c) =
          concat (map (ms (seq_of (map Chr p)) s) (ms (Chr a) s (i, c)))"
    using ms_seq_of_Cons [of "Chr a" "map Chr p" s "(i, c)"] by simp
  then show ?case
    by (simp add: Cons.IH starts_with_drop)
qed

lemma starts_with_iff: "starts_with s p \<longleftrightarrow> (\<exists>v. s = p @ v)"
  by (induction s p rule: starts_with.induct) auto

lemma rx_matcher_literal:
  "rx_matcher (seq_of (map Chr p)) 0 s i =
     (if starts_with (drop i s) p then Some (p, []) else None)"
proof (cases "starts_with (drop i s) p")
  case True
  then obtain v where "drop i s = p @ v" by (auto simp: starts_with_iff)
  then have "take (length p) (drop i s) = p" by simp
  with True show ?thesis by (simp add: rx_matcher_def ms_literal)
next
  case False
  then show ?thesis by (simp add: rx_matcher_def ms_literal)
qed

lemma scan_finds: "scan m s i k \<noteq> None \<longleftrightarrow> (\<exists>j. i \<le> j \<and> j < i + k \<and> m s j \<noteq> None)"
proof (induction k arbitrary: i)
  case 0
  then show ?case by simp
next
  case (Suc k)
  show ?case
  proof (cases "m s i")
    case None
    have "(\<exists>j. i \<le> j \<and> j < i + Suc k \<and> m s j \<noteq> None) \<longleftrightarrow>
          (\<exists>j. Suc i \<le> j \<and> j < Suc i + k \<and> m s j \<noteq> None)"
      using None by (metis Suc_leI add_Suc_right add_Suc_shift le_neq_implies_less le_SucI Suc_le_lessD less_or_eq_imp_le not_less_eq_eq)
    with None Suc.IH [of "Suc i"] show ?thesis by simp
  next
    case (Some a)
    then have "\<exists>j. i \<le> j \<and> j < i + Suc k \<and> m s j \<noteq> None"
      by (intro exI [of _ i]) simp
    with Some show ?thesis by (cases a) simp
  qed
qed

lemma test_non_global:
  assumes "\<not> global re"
  shows "fst (RegExp_test re s) \<longleftrightarrow> (\<exists>j. j \<le> length s \<and> matcher re s j \<noteq> None)"
proof -
  have "fst (RegExp_test re s) \<longleftrightarrow> scan (matcher re) s 0 (Suc (length s)) \<noteq> None"
    using assms by (auto simp: RegExp_test_def RegExp_exec_def simp del: scan.simps split: option.splits)
  also have "\<dots> \<longleftrightarrow> (\<exists>j. j \<le> length s \<and> matcher re s j \<noteq> None)"
    using scan_finds [of "matcher re" s 0 "Suc (length s)"]
    by (simp add: less_Suc_eq_le del: scan.simps)
  finally show ?thesis .
qed

lemma contains_iff:
  "(\<exists>j. j \<le> length s \<and> starts_with (drop j s) p) \<longleftrightarrow> (\<exists>u v. s = u @ p @ v)"
proof
  assume "\<exists>j. j \<le> length s \<and> starts_with (drop j s) p"
  then obtain j v where "drop j s = p @ v" by (auto simp: starts_with_iff)
  then have "s = take j s @ p @ v" by (metis append_take_drop_id)
  then show "\<exists>u v. s = u @ p @ v" by blast
next
  assume "\<exists>u v. s = u @ p @ v"
  then obtain u v where s: "s = u @ p @ v" by blast
  then have "length u \<le> length s \<and> starts_with (drop (length u) s) p"
    by (simp add: starts_with_iff)
  then show "\<exists>j. j \<le> length s \<and> starts_with (drop j s) p" by blast
qed

lemma String_includes_iff: "String_includes s p \<longleftrightarrow> (\<exists>u v. s = u @ p @ v)"
proof (induction s)
  case Nil
  then show ?case by (auto simp: starts_with_iff)
next
  case (Cons c s)
  show ?case
  proof
    assume "String_includes (c # s) p"
    then consider "starts_with (c # s) p" | "String_includes s p"
      by (auto split: if_splits)
    then show "\<exists>u v. c # s = u @ p @ v"
    proof cases
      case 1
      then obtain v where "c # s = [] @ p @ v" by (auto simp: starts_with_iff)
      then show ?thesis by blast
    next
      case 2
      with Cons.IH obtain u v where "s = u @ p @ v" by blast
      then have "c # s = (c # u) @ p @ v" by simp
      then show ?thesis by blast
    qed
  next
    assume "\<exists>u v. c # s = u @ p @ v"
    then obtain u v where e: "c # s = u @ p @ v" by blast
    show "String_includes (c # s) p"
    proof (cases u)
      case Nil
      with e have "starts_with (c # s) p" by (auto simp: starts_with_iff)
      then show ?thesis by simp
    next
      case (Cons d u')
      with e have "s = u' @ p @ v" by simp
      with Cons.IH have "String_includes s p" by blast
      then show ?thesis by simp
    qed
  qed
qed

lemma RegExp_new_escaped:
  "RegExp_new (escapeRegExp p) [] =
     Inr \<lparr>source = (if escapeRegExp p = [] then ''(?:)'' else EscapeRegExpPattern (escapeRegExp p)),
          global = False, lastIndex = 0, matcher = rx_matcher (seq_of (map Chr p)) 0\<rparr>"
  by (simp add: RegExp_new_def parse_pattern_escapeRegExp)

text \<open>
  Claim C5 (text-mode literal matching).  For every pattern string, compiling it in TEXT
  mode succeeds, and for every line the escaped regex, \<open>Filter.test\<close> of the filter that
  \<open>addFilter\<close> stores and \<open>Filter.test\<close> of a filter after \<open>editFilter\<close> each match the
  line if and only if the line contains the pattern as a substring.
\<close>

theorem text_mode_literal_matching:
  "\<exists>re f g. compileFilterPattern TEXT pattern = Inr (re, pattern) \<and>
            addFilter TEXT pattern fid = (if pattern = [] then None else Some (Inr f)) \<and>
            editFilter f0 TEXT pattern = Inr g \<and>
            regex f = re \<and> mode f = TEXT \<and> textPattern f = pattern \<and>
            regex g = re \<and> mode g = TEXT \<and> textPattern g = pattern \<and>
            (\<forall>line. fst (RegExp_test re line) = (\<exists>u v. line = u @ pattern @ v)) \<and>
            (\<forall>line. fst (Filter_test f line) = (\<exists>u v. line = u @ pattern @ v)) \<and>
            (\<forall>line. fst (Filter_test g line) = (\<exists>u v. line = u @ pattern @ v))"
proof -
  define re where
    "re = \<lparr>source = (if escapeRegExp pattern = [] then ''(?:)''
                     else EscapeRegExpPattern (escapeRegExp pattern)),
           global = False, lastIndex = 0, matcher = rx_matcher (seq_of (map Chr pattern)) 0\<rparr>"
  define f where "f = (Filter_new re fid None)\<lparr>mode := TEXT, textPattern := pattern\<rparr>"
  define g where "g = setRegex (f0\<lparr>mode := TEXT, textPattern := pattern\<rparr>) re"
  have c: "compileFilterPattern TEXT pattern = Inr (re, pattern)"
    by (simp add: compileFilterPattern_def RegExp_new_escaped re_def)
  have a: "addFilter TEXT pattern fid = (if pattern = [] then None else Some (Inr f))"
    by (simp add: addFilter_def c f_def)
  have e: "editFilter f0 TEXT pattern = Inr g"
    by (simp add: editFilter_def c g_def)
  have flds: "regex f = re" "mode f = TEXT" "textPattern f = pattern"
    by (simp_all add: f_def Filter_new_def)
  have gflds: "regex g = re" "mode g = TEXT" "textPattern g = pattern"
    by (simp_all add: g_def setRegex_def clearCache_def)
  have ng: "\<not> global re" and m: "matcher re = rx_matcher (seq_of (map Chr pattern)) 0"
    by (simp_all add: re_def)
  have t1: "fst (RegExp_test re line) = (\<exists>u v. line = u @ pattern @ v)" for line
  proof -
    have "fst (RegExp_test re line) \<longleftrightarrow>
            (\<exists>j. j \<le> length line \<and> starts_with (drop j line) pattern)"
      unfolding test_non_global [OF ng] m rx_matcher_literal by auto
    then show ?thesis by (simp add: contains_iff)
  qed
  have t2: "fst (Filter_test f line) = (\<exists>u v. line = u @ pattern @ v)" for line
    by (simp add: Filter_test_def flds String_includes_iff)
  have t3: "fst (Filter_test g line) = (\<exists>u v. line = u @ pattern @ v)" for line
    by (simp add: Filter_test_def gflds String_includes_iff)
  from c a e flds gflds t1 t2 t3 show ?thesis by blast
qed

theorem text_mode_literal_matching_witness:
  "\<exists>re f. compileFilterPattern TEXT ''a.b*c'' = Inr (re, ''a.b*c'') \<and>
          addFilter TEXT ''a.b*c'' ''filter-1'' = Some (Inr f) \<and>
          fst (RegExp_test re ''x a.b*c y'') \<and> \<not> fst (RegExp_test re ''axbbc'') \<and>
          fst (Filter_test f ''x a.b*c y'') \<and> \<not> fst (Filter_test f ''axbbc'')"
proof -
  from text_mode_literal_matching [of "''a.b*c''" "''filter-1''" error_filter]
  obtain re f where c: "compileFilterPattern TEXT ''a.b*c'' = Inr (re, ''a.b*c'')"
    and a': "addFilter TEXT ''a.b*c'' ''filter-1'' =
               (if ''a.b*c'' = [] then None else Some (Inr f))"
    and t1: "\<forall>line. fst (RegExp_test re line) = (\<exists>u v. line = u @ ''a.b*c'' @ v)"
    and t2: "\<forall>line. fst (Filter_test f line) = (\<exists>u v. line = u @ ''a.b*c'' @ v)"
    by blast
  from a' have a: "addFilter TEXT ''a.b*c'' ''filter-1'' = Some (Inr f)"
    by simp
  have yes: "\<exists>u v. ''x a.b*c y'' = u @ ''a.b*c'' @ v"
    unfolding String_includes_iff [symmetric] by simp
  have no: "\<not> (\<exists>u v. ''axbbc'' = u @ ''a.b*c'' @ v)"
    unfolding String_includes_iff [symmetric] by simp
  have "fst (RegExp_test re ''x a.b*c y'')" and "\<not> fst (RegExp_test re ''axbbc'')"
    and "fst (Filter_test f ''x a.b*c y'')" and "\<not> fst (Filter_test f ''axbbc'')"
    using yes no by (simp_all only: t1 t2 not_False_eq_True)
  with c a show ?thesis by blast
qed

text \<open>Compiled in REGEX mode, the same pattern does match \<open>axbbc\<close>.\<close>

lemma regex_mode_contrast: "fst (RegExp_test (regex_of ''a.b*c'') ''axbbc'')"
  by code_simp


section \<open>Termination and the empty filter list\<close>

lemma RegExp_new_global: "RegExp_new p ''gm'' = Inr re \<Longrightarrow> global re"
  by (auto simp: RegExp_new_def split: if_splits option.splits)

lemma buildCombinedRegex_matcher:
  assumes "buildCombinedRegex fs = Inr (re, fm)"
  shows "global re \<or> (\<forall>t j. matcher re t j = None)"
proof (cases "fs = []")
  case True
  with assms have "re = \<lparr>source = ''(?!)'', global = False, lastIndex = 0,
      matcher = rx_matcher (NegLookahead Empty) 0\<rparr>"
    by (simp add: buildCombinedRegex_def never_regex)
  then show ?thesis by (simp add: never_matcher)
next
  case False
  with assms have "\<exists>p. RegExp_new p ''gm'' = Inr re"
    by (auto simp: buildCombinedRegex_def Let_def split: sum.splits)
  then show ?thesis by (auto dest: RegExp_new_global)
qed

text \<open>
  Claim C4 (termination under zero-length matches).  Let the combined matcher be global,
  as \<open>buildCombinedRegex\<close> compiles it (flags \<open>gm\<close>), or be any matcher that
  \<open>buildCombinedRegex\<close> returns.  Whatever it matches at each position, the empty string
  included, \<open>performCombinedAnalysis\<close> returns, for every text and every index map, and
  it returns without an exception.  Each turn of the exec loop leaves \<open>lastIndex\<close>
  greater than it found it (\<open>exec_loop_terminates\<close>): a match that is not empty ends
  behind its start, and after an empty one the loop adds one.
\<close>

theorem analysis_terminates:
  assumes "global re \<or> (\<exists>fs fm0. buildCombinedRegex fs = Inr (re, fm0))"
  shows "\<exists>res win. performCombinedAnalysis text re fm = Some (Inr (res, win))"
proof -
  from assms buildCombinedRegex_matcher
  consider "global re" | "\<forall>t j. matcher re t j = None"
    by blast
  then show ?thesis
  proof cases
    case 1
    from analyse_lines_terminates [OF 1, of fm "(init_results fm, [])" "split_lines text" 0]
      covers_init_results [of fm]
    show ?thesis by (auto simp: performCombinedAnalysis_def)
  next
    case 2
    then have "analyse_lines fm re (split_lines text) 0 (init_results fm, []) =
                 Some (Inr (init_results fm, []))"
      by (intro analyse_lines_never) simp
    then show ?thesis by (simp add: performCombinedAnalysis_def)
  qed
qed

lemma empty_everywhere_new: "RegExp_new [] ''g'' = Inr empty_everywhere"
  by (simp add: RegExp_new_def parse_pattern_def empty_everywhere_def)

lemma empty_everywhere_matches: "matcher empty_everywhere s i = Some ([], [])"
  by (simp add: empty_everywhere_def rx_matcher_def)

theorem analysis_terminates_witness:
  "global empty_everywhere \<and>
   matcher empty_everywhere ''ab'' 1 = Some ([], []) \<and>
   (\<exists>res win. performCombinedAnalysis ''ab'' empty_everywhere
        [(1, \<lparr>filterId = ''f'', isExclude = False\<rparr>)] = Some (Inr (res, win)))"
  using analysis_terminates [of empty_everywhere "''ab''"
      "[(1, \<lparr>filterId = ''f'', isExclude = False\<rparr>)]"]
    empty_everywhere_matches [of "''ab''" 1]
  by (simp add: empty_everywhere_def)

text \<open>
  A filter \<open>/a*/\<close> matches the empty string everywhere: the analysis of the two lines
  \<open>ba\<close> and the empty line returns, with both lines recorded.
\<close>

lemma zero_length_filter_run:
  "combinedAnalysis [Filter_new (regex_of ''a*'') ''filter-a'' None] (''ba'' @ [CHR 0x0A]) =
     Some (Inr ([(''filter-a'', \<lparr>lines = [0, 1], isExclude = False\<rparr>)],
                [(0, ''filter-a''), (1, ''filter-a'')]))"
  by code_simp

text \<open>
  Claim C7 (the empty filter list).  \<open>buildCombinedRegex([])\<close> does not fail: it returns
  a matcher that matches at no position of any string, so that \<open>exec\<close> is null on every
  input, and the empty index map; with them \<open>performCombinedAnalysis\<close> returns the empty
  result map and the empty winner map for every text.
\<close>

theorem empty_filter_set:
  "\<exists>re. buildCombinedRegex [] = Inr (re, []) \<and>
         (\<forall>s i. matcher re s i = None) \<and>
         (\<forall>s. fst (RegExp_exec re s) = None) \<and>
         (\<forall>text. performCombinedAnalysis text re [] = Some (Inr ([], [])))"
proof -
  define re where "re = \<lparr>source = ''(?!)'', global = False, lastIndex = 0,
      matcher = rx_matcher (NegLookahead Empty) 0\<rparr>"
  have b: "buildCombinedRegex [] = Inr (re, [])"
    by (simp add: buildCombinedRegex_def never_regex re_def)
  have n: "matcher re s i = None" for s i
    by (simp add: re_def never_matcher)
  have e: "fst (RegExp_exec re s) = None" for s
    by (rule RegExp_exec_never) (rule n)
  have p: "performCombinedAnalysis t re [] = Some (Inr ([], []))" for t
    using analyse_lines_never [of re "[]" "split_lines t" 0 "([], [])"] n
    by (simp add: performCombinedAnalysis_def init_results_def)
  from b n e p show ?thesis by blast
qed

theorem empty_filter_set_witness:
  "(case buildCombinedRegex [] of
      Inl e \<Rightarrow> False
    | Inr (re, fm) \<Rightarrow>
        fm = [] \<and> fst (RegExp_exec re ''db error'') = None \<and>
        performCombinedAnalysis (''db error'' @ [CHR 0x0A] @ ''ok'') re fm = Some (Inr ([], [])))"
  using empty_filter_set by auto


section \<open>The combined scan against each filter alone\<close>

text \<open>
  The combined regex is one alternation, and \<open>exec\<close> resumes behind each match.  Text
  that one alternative has consumed is never offered to another one, so a filter whose
  own pattern matches a line can be missing from the results of that line.

  Claim C1 (single-scan equivalence) at the filters \<open>/error/\<close> and \<open>/err/\<close> and the one
  line \<open>error\<close>: the scan matches \<open>error\<close> by the first alternative and ends; the line
  set of \<open>/err/\<close> stays empty, although \<open>/err/\<close> tested alone matches the line.
\<close>

theorem combined_scan_misses_overlap:
  "combinedAnalysis [error_100, err_10] ''error'' =
     Some (Inr ([(''filter-error'', \<lparr>lines = [0], isExclude = False\<rparr>),
                 (''filter-err'', \<lparr>lines = [], isExclude = False\<rparr>)],
                [(0, ''filter-error'')])) \<and>
   fst (Filter_test err_10 ''error'')"
  by code_simp

text \<open>
  Claim C2 (priority winner) at the filters \<open>/error/\<close> of priority 100 and \<open>/db error/\<close> of
  priority 10 and the one line \<open>db error\<close>: at position 0 only the second alternative
  matches, and it consumes the whole line.  The winner of the line is the filter of
  priority 10, although the filter of priority 100 tested alone matches the line too.
\<close>

theorem winner_not_highest_priority:
  "combinedAnalysis [error_100, db_error_10] ''db error'' =
     Some (Inr ([(''filter-error'', \<lparr>lines = [], isExclude = False\<rparr>),
                 (''filter-db-error'', \<lparr>lines = [0], isExclude = False\<rparr>)],
                [(0, ''filter-db-error'')])) \<and>
   fst (Filter_test error_100 ''db error'') \<and>
   fst (Filter_test db_error_10 ''db error'') \<and>
   priority error_100 = Num 100 \<and> priority db_error_10 = Num 10"
  by code_simp

text \<open>
  The tests of the repository, for comparison: where the patterns do not overlap on
  the line, every filter is recorded and the filter of highest priority wins.
\<close>

lemma repository_tests:
  "combinedAnalysis
     [Filter_new (regex_of ''ERROR'') ''high'' (Some (Num 100)),
      Filter_new (regex_of ''DATABASE'') ''low'' (Some (Num 10))]
     (''10:00 DATABASE ERROR: connection failed'' @ [CHR 0x0A] @ ''10:01 DATABASE: ok'') =
   Some (Inr ([(''high'', \<lparr>lines = [0], isExclude = False\<rparr>),
               (''low'', \<lparr>lines = [0, 1], isExclude = False\<rparr>)],
              [(0, ''high''), (1, ''low'')]))"
  "combinedAnalysis
     [Filter_new (regex_of ''apple'') ''A'' (Some (Num 10)),
      Filter_new (regex_of ''banana'') ''B'' (Some (Num 100))]
     ''I like apple and banana'' =
   Some (Inr ([(''B'', \<lparr>lines = [0], isExclude = False\<rparr>),
               (''A'', \<lparr>lines = [0], isExclude = False\<rparr>)],
              [(0, ''B'')]))"
  by code_simp+


section \<open>A regex without the global flag\<close>

text \<open>
  \<open>exec\<close> on a regex without the global flag starts at index 0 in every call and does not
  move \<open>lastIndex\<close>.  When such a regex matches a line anywhere, the loop over that line
  gets the same match again and again.
\<close>

lemma RegExp_exec_non_global:
  assumes "\<not> global re" and "j \<le> length line" and "matcher re line j \<noteq> None"
  shows "\<exists>m. RegExp_exec re line = (Some m, re)"
proof -
  from scan_finds [of "matcher re" line 0 "Suc (length line)"] assms(2,3)
  have "scan (matcher re) line 0 (Suc (length line)) \<noteq> None"
    by (auto simp del: scan.simps)
  with assms(1) show ?thesis
    by (auto simp: RegExp_exec_def simp del: scan.simps)
qed

lemma exec_loop_non_global_aux:
  assumes "exec_loop fm line lineIndex re st = Some y"
  shows "\<not> (\<not> global re \<and> (\<exists>j \<le> length line. matcher re line j \<noteq> None) \<and> covers fm (snd st))"
  using assms
proof (induction fm line lineIndex re st y rule: exec_loop.raw_induct [rotated 1, consumes 1])
  case (1 loop fm line lineIndex re st y)
  show ?case
  proof
    assume a: "\<not> global re \<and> (\<exists>j \<le> length line. matcher re line j \<noteq> None) \<and> covers fm (snd st)"
    then obtain m where ex: "RegExp_exec re line = (Some m, re)"
      using RegExp_exec_non_global by blast
    from a check_groups_total [of fm "snd st" lineIndex 1 "captures m" "fst st"]
    obtain st1 where cg: "check_groups fm lineIndex 1 (captures m) st = Inr st1"
      by auto
    define re1 where
      "re1 = (if index m = lastIndex re then re\<lparr>lastIndex := Suc (lastIndex re)\<rparr> else re)"
    from 1(2) ex cg have rec: "loop fm line lineIndex re1 st1 = Some y"
      by (simp add: re1_def)
    have "check_groups fm lineIndex 1 (captures m) (fst st, snd st) = Inr (fst st1, snd st1)"
      using cg by simp
    then have "grows (snd st) (snd st1)" by (rule check_groups_grows)
    with a have "covers fm (snd st1)" by (auto intro: covers_grows)
    moreover have "\<not> global re1" "matcher re1 = matcher re"
      using a by (simp_all add: re1_def)
    ultimately have "\<not> global re1 \<and> (\<exists>j \<le> length line. matcher re1 line j \<noteq> None) \<and> covers fm (snd st1)"
      using a by simp
    with 1(1) [OF rec] show False by blast
  qed
qed

lemma exec_loop_non_global_diverges:
  assumes "\<not> global re" and "j \<le> length line" and "matcher re line j \<noteq> None"
      and "covers fm (snd st)"
  shows "exec_loop fm line lineIndex re st = None"
proof (cases "exec_loop fm line lineIndex re st")
  case None
  then show ?thesis .
next
  case (Some y)
  from exec_loop_non_global_aux [OF Some] assms show ?thesis by blast
qed

lemma analyse_line_non_global:
  assumes "\<not> global re" and "j \<le> length line" and "matcher re line j \<noteq> None"
      and "covers fm (fst st)"
  shows "analyse_line fm re line lineIndex st = None"
proof -
  have "exec_loop fm line lineIndex (re\<lparr>lastIndex := 0\<rparr>) (None, fst st) = None"
    by (rule exec_loop_non_global_diverges [where j = j]) (use assms in simp_all)
  then show ?thesis by (simp add: analyse_line_def)
qed

lemma analyse_lines_non_global:
  assumes "\<not> global re" and "line \<in> set ls" and "j \<le> length line"
      and "matcher re line j \<noteq> None" and "covers fm (fst st)"
  shows "analyse_lines fm re ls lineIndex st = None"
  using assms(2,5)
proof (induction ls arbitrary: lineIndex st)
  case Nil
  then show ?case by simp
next
  case (Cons l rest)
  show ?case
  proof (cases "analyse_line fm re l lineIndex st")
    case None
    then show ?thesis by simp
  next
    case (Some y)
    from analyse_line_no_error [OF Some Cons.prems(2)]
    obtain st' where y: "y = Inr st'" and c: "covers fm (fst st')" by blast
    have "l \<noteq> line"
    proof
      assume "l = line"
      with analyse_line_non_global [OF assms(1,3,4) Cons.prems(2), of lineIndex] Some
      show False by simp
    qed
    with Cons.prems(1) have "line \<in> set rest" by simp
    from Cons.IH [OF this c] Some y show ?thesis by simp
  qed
qed

text \<open>
  \<open>performCombinedAnalysis\<close> with a regex without the global flag that matches some line
  of the text does not return.
\<close>

theorem non_global_regex_never_returns:
  assumes "\<not> global re" and "line \<in> set (split_lines text)" and "j \<le> length line"
      and "matcher re line j \<noteq> None"
  shows "performCombinedAnalysis text re fm = None"
  unfolding performCombinedAnalysis_def
  by (rule analyse_lines_non_global [OF assms]) (simp add: covers_init_results)

theorem non_global_regex_never_returns_witness:
  "\<not> global first_a \<and> matcher first_a ''a'' 0 \<noteq> None \<and>
   performCombinedAnalysis (''b'' @ [CHR 0x0A] @ ''a'') first_a [] = None"
proof -
  have ng: "\<not> global first_a"
    by code_simp
  have m: "matcher first_a ''a'' 0 \<noteq> None"
    by code_simp
  have l: "''a'' \<in> set (split_lines (''b'' @ [CHR 0x0A] @ ''a''))"
    by code_simp
  from non_global_regex_never_returns [OF ng l _ m, of "[]"] ng m show ?thesis
    by simp
qed


section \<open>The winner among the recorded filters\<close>

text \<open>
  The winner of a line is the filter of lowest index among the filters the scan has
  recorded on the line, and the indices follow the stable sort by descending priority.
\<close>

lemma line_ranked_other:
  "line_ranked fm res0 L best res \<Longrightarrow> map_of res k = Some r \<Longrightarrow> n \<in> set (lines r) \<Longrightarrow>
     n \<noteq> L \<Longrightarrow> \<exists>r0. map_of res0 k = Some r0 \<and> n \<in> set (lines r0)"
  unfolding line_ranked_def by fast

lemma line_ranked_here:
  "line_ranked fm res0 L best res \<Longrightarrow> map_of res k = Some r \<Longrightarrow> L \<in> set (lines r) \<Longrightarrow>
     \<exists>b i ki. best = Some b \<and> map_of fm i = Some ki \<and> filterId ki = k \<and> b \<le> i"
  unfolding line_ranked_def by fast

lemma line_ranked_best:
  "line_ranked fm res0 L best res \<Longrightarrow> best = Some b \<Longrightarrow> \<exists>wi. map_of fm b = Some wi"
  unfolding line_ranked_def by fast

lemma ranked_below:
  "ranked fm res win L \<Longrightarrow> map_of res k = Some r \<Longrightarrow> m \<in> set (lines r) \<Longrightarrow> m < L"
  unfolding ranked_def by fast

lemma ranked_winner:
  "ranked fm res win L \<Longrightarrow> map_of res k = Some r \<Longrightarrow> n \<in> set (lines r) \<Longrightarrow>
     \<exists>b wi i ki. map_of fm b = Some wi \<and> map_of win n = Some (filterId wi) \<and>
        map_of fm i = Some ki \<and> filterId ki = k \<and> b \<le> i"
  unfolding ranked_def by fast

lemma line_ranked_step:
  assumes lr: "line_ranked fm res0 L best res"
      and info: "map_of fm i = Some info"
      and r: "map_of res (filterId info) = Some r"
  shows "line_ranked fm res0 L
           (case best of None \<Rightarrow> Some i | Some b \<Rightarrow> if i < b then Some i else Some b)
           (AList.update (filterId info) (r\<lparr>lines := Set_add L (lines r)\<rparr>) res)"
proof -
  define best1 where "best1 = (case best of None \<Rightarrow> Some i | Some b \<Rightarrow> if i < b then Some i else Some b)"
  define res1 where "res1 = AList.update (filterId info) (r\<lparr>lines := Set_add L (lines r)\<rparr>) res"
  define b1 where "b1 = (case best of None \<Rightarrow> i | Some b \<Rightarrow> if i < b then i else b)"
  have b1: "best1 = Some b1" "b1 \<le> i" "\<And>b. best = Some b \<Longrightarrow> b1 \<le> b"
    by (cases best; simp add: best1_def b1_def)+
  have lk: "map_of res1 k = (if k = filterId info then Some (r\<lparr>lines := Set_add L (lines r)\<rparr>)
                              else map_of res k)" for k
    by (simp add: res1_def update_conv')
  have c1: "\<exists>r0. map_of res0 k = Some r0 \<and> n \<in> set (lines r0)"
    if "map_of res1 k = Some r'" "n \<in> set (lines r')" "n \<noteq> L" for k r' n
  proof (cases "k = filterId info")
    case True
    with that lk have "n \<in> set (lines r)" by (auto simp: Set_add_def split: if_splits)
    from line_ranked_other [OF lr r this that(3)] True show ?thesis by simp
  next
    case False
    with that lk have "map_of res k = Some r'" by simp
    from line_ranked_other [OF lr this that(2,3)] show ?thesis .
  qed
  have c2: "\<exists>b i' ki. best1 = Some b \<and> map_of fm i' = Some ki \<and> filterId ki = k \<and> b \<le> i'"
    if "map_of res1 k = Some r'" "L \<in> set (lines r')" for k r'
  proof (cases "k = filterId info")
    case True
    with info b1 show ?thesis by auto
  next
    case False
    with that lk have "map_of res k = Some r'" by simp
    from line_ranked_here [OF lr this that(2)] obtain b i' ki where
      "best = Some b" "map_of fm i' = Some ki" "filterId ki = k" "b \<le> i'"
      by blast
    with b1 show ?thesis by (metis le_trans)
  qed
  have c3: "map_of fm b \<noteq> None" if "best1 = Some b" for b
    using that line_ranked_best [OF lr] info
    by (cases best) (auto simp: best1_def split: if_splits)
  from c1 c2 c3 show ?thesis
    unfolding line_ranked_def best1_def [symmetric] res1_def [symmetric] by blast
qed

lemma check_groups_ranked:
  assumes "check_groups fm L i gs (best, res) = Inr (best', res')"
      and "line_ranked fm res0 L best res"
  shows "line_ranked fm res0 L best' res'"
  using assms
proof (induction gs arbitrary: i best res)
  case Nil
  then show ?case by simp
next
  case (Cons g gs)
  show ?case
  proof (cases g)
    case None
    with Cons.prems Cons.IH [of "Suc i" best res] show ?thesis by simp
  next
    case (Some v)
    show ?thesis
    proof (cases "map_of fm i")
      case None
      with Some Cons.prems Cons.IH [of "Suc i" best res] show ?thesis by simp
    next
      case info: (Some info)
      show ?thesis
      proof (cases "map_of res (filterId info)")
        case None
        with Some info Cons.prems show ?thesis by simp
      next
        case r: (Some r)
        from Cons.prems(1) Some info r
        have step: "check_groups fm L (Suc i) gs
               (case best of None \<Rightarrow> Some i | Some b \<Rightarrow> if i < b then Some i else Some b,
                AList.update (filterId info) (r\<lparr>lines := Set_add L (lines r)\<rparr>) res) =
               Inr (best', res')"
          by simp
        from Cons.IH [OF step line_ranked_step [OF Cons.prems(2) info r]] show ?thesis .
      qed
    qed
  qed
qed

lemma exec_loop_ranked:
  assumes "exec_loop fm line L re st = Some y"
  shows "\<forall>best' res'. y = Inr (best', res') \<longrightarrow> line_ranked fm res0 L (fst st) (snd st) \<longrightarrow>
           line_ranked fm res0 L best' res'"
  using assms
proof (induction fm line L re st y rule: exec_loop.raw_induct [rotated 1, consumes 1])
  case (1 loop fm line L re st y)
  obtain mo re' where ex: "RegExp_exec re line = (mo, re')"
    by (cases "RegExp_exec re line")
  show ?case
  proof (cases mo)
    case None
    with 1(2) ex have "y = Inr st" by simp
    then show ?thesis by auto
  next
    case (Some m)
    show ?thesis
    proof (cases "check_groups fm L 1 (captures m) st")
      case (Inl e)
      with 1(2) ex Some have "y = Inl e" by simp
      then show ?thesis by simp
    next
      case (Inr st1)
      with 1(2) ex Some
      have rec: "loop fm line L
                   (if index m = lastIndex re' then re'\<lparr>lastIndex := Suc (lastIndex re')\<rparr> else re')
                   st1 = Some y"
        by simp
      have cg: "check_groups fm L 1 (captures m) (fst st, snd st) = Inr (fst st1, snd st1)"
        using Inr by simp
      show ?thesis
      proof (intro allI impI)
        fix best' res'
        assume y: "y = Inr (best', res')" and b: "line_ranked fm res0 L (fst st) (snd st)"
        from check_groups_ranked [OF cg b] have "line_ranked fm res0 L (fst st1) (snd st1)" .
        with 1(1) [OF rec] y show "line_ranked fm res0 L best' res'" by simp
      qed
    qed
  qed
qed

lemma analyse_line_ranked:
  assumes "analyse_line fm re line L (res, win) = Some (Inr (res', win'))"
      and "ranked fm res win L"
  shows "ranked fm res' win' (Suc L)"
proof -
  from assms(1) obtain best where
    loop: "exec_loop fm line L (re\<lparr>lastIndex := 0\<rparr>) (None, res) = Some (Inr (best, res'))"
    and win': "win' = (case best of None \<Rightarrow> win
                 | Some b \<Rightarrow> (case map_of fm b of None \<Rightarrow> win
                     | Some winner \<Rightarrow> AList.update L (filterId winner) win))"
    by (auto simp: analyse_line_def split: option.splits sum.splits)
  have start: "line_ranked fm res L None res"
    unfolding line_ranked_def using ranked_below [OF assms(2)] by fastforce
  from exec_loop_ranked [OF loop, of res] start
  have lr: "line_ranked fm res L best res'" by simp
  have a: "m < Suc L" if "map_of res' k = Some r" "m \<in> set (lines r)" for k r m
  proof (cases "m = L")
    case True
    then show ?thesis by simp
  next
    case False
    from line_ranked_other [OF lr that False] obtain r0 where
      "map_of res k = Some r0" "m \<in> set (lines r0)" by blast
    from ranked_below [OF assms(2) this] show ?thesis by simp
  qed
  have b: "\<exists>b wi i ki. map_of fm b = Some wi \<and> map_of win' n = Some (filterId wi) \<and>
            map_of fm i = Some ki \<and> filterId ki = k \<and> b \<le> i"
    if "map_of res' k = Some r" "n \<in> set (lines r)" for k r n
  proof (cases "n = L")
    case True
    from line_ranked_here [OF lr that(1)] that(2) True
    obtain b i ki where bi: "best = Some b" "map_of fm i = Some ki" "filterId ki = k" "b \<le> i"
      by blast
    from line_ranked_best [OF lr bi(1)] obtain wi where wi: "map_of fm b = Some wi"
      by blast
    with win' bi(1) have "map_of win' L = Some (filterId wi)"
      by (simp add: update_conv')
    with bi wi True show ?thesis by blast
  next
    case False
    from line_ranked_other [OF lr that False] obtain r0 where
      "map_of res k = Some r0" "n \<in> set (lines r0)" by blast
    from ranked_winner [OF assms(2) this]
    obtain b wi i ki where old: "map_of fm b = Some wi" "map_of win n = Some (filterId wi)"
      "map_of fm i = Some ki" "filterId ki = k" "b \<le> i"
      by blast
    have "map_of win' n = map_of win n"
      using win' False by (auto simp: update_conv' split: option.splits)
    with old show ?thesis by metis
  qed
  from a b show ?thesis unfolding ranked_def by blast
qed

lemma analyse_lines_ranked:
  assumes "analyse_lines fm re ls L (res, win) = Some (Inr (res', win'))"
      and "ranked fm res win L"
  shows "ranked fm res' win' (L + length ls)"
  using assms
proof (induction ls arbitrary: L res win)
  case Nil
  then show ?case by simp
next
  case (Cons line ls)
  from Cons.prems(1) obtain res1 win1 where
    one: "analyse_line fm re line L (res, win) = Some (Inr (res1, win1))"
    and rest: "analyse_lines fm re ls (Suc L) (res1, win1) = Some (Inr (res', win'))"
    by (auto split: option.splits sum.splits)
  from Cons.IH [OF rest analyse_line_ranked [OF one Cons.prems(2)]] show ?case by simp
qed

lemma lines_init_results: "map_of (init_results fm) k = Some r \<Longrightarrow> lines r = []"
proof -
  have "\<forall>k r. map_of (fold (\<lambda>(i, info) res.
        AList.update (filterId info) \<lparr>lines = [], isExclude = FilterInfo.isExclude info\<rparr> res) fm acc) k = Some r
        \<longrightarrow> (\<forall>k r. map_of acc k = Some r \<longrightarrow> lines r = []) \<longrightarrow> lines r = []" for acc
  proof (induction fm arbitrary: acc)
    case Nil
    then show ?case by auto
  next
    case (Cons p fm)
    obtain i info where p: "p = (i, info)" by (cases p)
    show ?case
      unfolding p using Cons.IH [of "AList.update (filterId info) \<lparr>lines = [], isExclude = FilterInfo.isExclude info\<rparr> acc"]
      by (auto simp: update_conv' split: if_splits)
  qed
  then show "map_of (init_results fm) k = Some r \<Longrightarrow> lines r = []"
    unfolding init_results_def by fastforce
qed

lemma performCombinedAnalysis_ranked:
  assumes "performCombinedAnalysis text re fm = Some (Inr (res, win))"
  shows "ranked fm res win (length (split_lines text))"
proof -
  have "ranked fm (init_results fm) [] 0"
    unfolding ranked_def using lines_init_results by fastforce
  from analyse_lines_ranked [OF assms [unfolded performCombinedAnalysis_def] this]
  show ?thesis by simp
qed

lemma filterMap_lookup:
  "map_of (fold (\<lambda>(i, f) m.
        AList.update (Suc i) \<lparr>filterId = filter_id f, isExclude = (focusAction f = EXCLUDED)\<rparr> m)
      (List.enumerate k xs) acc) j =
     (if k < j \<and> j \<le> k + length xs then Some (info_of (xs ! (j - Suc k))) else map_of acc j)"
proof (induction xs arbitrary: k acc j)
  case Nil
  then show ?case by auto
next
  case (Cons x xs)
  show ?case
  proof (cases "j = Suc k")
    case True
    then show ?thesis by (simp add: Cons.IH update_conv' info_of_def)
  next
    case False
    then have "(Suc k < j \<and> j \<le> Suc k + length xs) = (k < j \<and> j \<le> k + length (x # xs))"
      by auto
    moreover have "(x # xs) ! (j - Suc k) = xs ! (j - Suc (Suc k))" if "Suc k < j"
      using that by (simp add: nth_Cons')
    ultimately show ?thesis
      using False by (auto simp: Cons.IH update_conv')
  qed
qed

lemma insort_by_priority:
  assumes "\<forall>y \<in> set (x # ys). \<exists>v. priority y = Num v"
  shows "insort_by by_priority_desc x ys = insort_key (\<lambda>f. - prio f) x ys"
  using assms
proof (induction ys)
  case Nil
  then show ?case by simp
next
  case (Cons y ys)
  from Cons.prems obtain vx vy where v: "priority x = Num vx" "priority y = Num vy"
    by auto
  then have "num_lt (Num 0) (by_priority_desc x y) \<longleftrightarrow> \<not> (- prio x \<le> - prio y)"
    by (auto simp: by_priority_desc_def prio_def)
  with Cons show ?case by simp
qed

lemma Array_sort_by_priority:
  assumes "\<forall>y \<in> set fs. \<exists>v. priority y = Num v"
  shows "Array_sort by_priority_desc fs = sort_key (\<lambda>f. - prio f) fs"
  using assms
proof (induction fs)
  case Nil
  then show ?case by (simp add: Array_sort_def)
next
  case (Cons f fs)
  then have IH: "Array_sort by_priority_desc fs = sort_key (\<lambda>f. - prio f) fs"
    by simp
  have "\<forall>y \<in> set (f # sort_key (\<lambda>f. - prio f) fs). \<exists>v. priority y = Num v"
    using Cons.prems by simp
  from insort_by_priority [OF this] IH show ?case
    by (simp add: Array_sort_def)
qed

lemma nth_precedes:
  assumes "p < q" and "q < length xs"
  shows "precedes (xs ! p) (xs ! q) xs"
proof -
  from assms have p: "p < length xs" by simp
  have 1: "xs = take p xs @ xs ! p # drop (Suc p) xs"
    by (rule id_take_nth_drop [OF p])
  have q': "q - Suc p < length (drop (Suc p) xs)"
    using assms by simp
  have 2: "drop (Suc p) xs = take (q - Suc p) (drop (Suc p) xs) @
             drop (Suc p) xs ! (q - Suc p) # drop (Suc (q - Suc p)) (drop (Suc p) xs)"
    by (rule id_take_nth_drop [OF q'])
  have 3: "drop (Suc p) xs ! (q - Suc p) = xs ! q"
    using assms by simp
  from 1 2 3 have "xs = take p xs @ xs ! p # take (q - Suc p) (drop (Suc p) xs) @
             xs ! q # drop (Suc (q - Suc p)) (drop (Suc p) xs)"
    by metis
  then show ?thesis unfolding precedes_def by blast
qed

lemma precedes_filter:
  "precedes x y xs \<Longrightarrow> P x \<Longrightarrow> P y \<Longrightarrow> precedes x y (filter P xs)"
  unfolding precedes_def by fastforce

lemma precedes_Cons: "precedes x y xs \<Longrightarrow> precedes x y (a # xs)"
  unfolding precedes_def by (metis append_Cons)

lemma precedes_filterD: "precedes x y (filter P xs) \<Longrightarrow> precedes x y xs"
proof (induction xs)
  case Nil
  then show ?case by (simp add: precedes_def)
next
  case (Cons a xs)
  show ?case
  proof (cases "P a")
    case False
    with Cons show ?thesis by (simp add: precedes_Cons)
  next
    case True
    with Cons.prems obtain as bs cs where e: "a # filter P xs = as @ x # bs @ y # cs"
      by (auto simp: precedes_def)
    show ?thesis
    proof (cases as)
      case Nil
      with e have "x = a" and "filter P xs = bs @ y # cs" by simp_all
      then have "y \<in> set (filter P xs)" by simp
      then have "y \<in> set xs" by simp
      then obtain us vs where "xs = us @ y # vs" by (auto dest: split_list)
      with \<open>x = a\<close> have "a # xs = [] @ x # us @ y # vs" by simp
      then show ?thesis unfolding precedes_def by blast
    next
      case (Cons a' as')
      with e have "filter P xs = as' @ x # bs @ y # cs" by simp
      then have "precedes x y (filter P xs)" unfolding precedes_def by blast
      from Cons.IH [OF this] show ?thesis by (rule precedes_Cons)
    qed
  qed
qed

lemma sorted_priority_order:
  assumes "srt = sort_key (\<lambda>f. - prio f) fs" and "p \<le> q" and "q < length srt"
  shows "prio (srt ! q) \<le> prio (srt ! p)"
    and "prio (srt ! q) = prio (srt ! p) \<Longrightarrow> p \<noteq> q \<Longrightarrow> precedes (srt ! p) (srt ! q) fs"
proof -
  have s: "sorted_wrt (\<le>) (map (\<lambda>f. - prio f) srt)"
    unfolding assms(1) by simp
  from sorted_nth_mono [OF s, of p q] assms(2,3)
  show "prio (srt ! q) \<le> prio (srt ! p)" by simp
  assume tie: "prio (srt ! q) = prio (srt ! p)" and ne: "p \<noteq> q"
  with assms(2) have "p < q" by simp
  from nth_precedes [OF this assms(3)] have "precedes (srt ! p) (srt ! q) srt" .
  then have "precedes (srt ! p) (srt ! q)
               (filter (\<lambda>y. - prio y = - prio (srt ! p)) srt)"
    using tie by (intro precedes_filter) simp_all
  then have "precedes (srt ! p) (srt ! q)
               (filter (\<lambda>y. - prio y = - prio (srt ! p)) fs)"
    unfolding assms(1) sort_key_stable .
  then show "precedes (srt ! p) (srt ! q) fs" by (rule precedes_filterD)
qed

lemma buildCombinedRegex_filterMap:
  assumes "fs \<noteq> []" and "buildCombinedRegex fs = Inr (re, fm)"
  shows "fm = fold (\<lambda>(i, f) m.
        AList.update (Suc i) \<lparr>filterId = filter_id f, isExclude = (focusAction f = EXCLUDED)\<rparr> m)
      (List.enumerate 0 (Array_sort by_priority_desc fs)) []"
proof -
  define combined where
    "combined = Array_join ''|'' (map (\<lambda>f. ''('' @ source (regex f) @ '')'')
                  (Array_sort by_priority_desc fs))"
  show ?thesis
  proof (cases "RegExp_new combined ''gm''")
    case (Inl e)
    with assms show ?thesis
      by (simp add: buildCombinedRegex_def Let_def combined_def)
  next
    case (Inr re')
    with assms show ?thesis
      by (simp add: buildCombinedRegex_def Let_def combined_def)
  qed
qed

lemma sample_combined_built:
  "buildCombinedRegex [error_100, db_error_10] = Inr (fst sample_combined, snd sample_combined)"
proof (cases "buildCombinedRegex [error_100, db_error_10]")
  case (Inl e)
  moreover have "case buildCombinedRegex [error_100, db_error_10] of
                   Inl e \<Rightarrow> False | Inr x \<Rightarrow> True"
    by code_simp
  ultimately show ?thesis by simp
next
  case (Inr x)
  then show ?thesis by (simp add: sample_combined_def)
qed

text \<open>
  For filters with distinct ids and finite priorities, combined by \<open>buildCombinedRegex\<close>:
  when the analysis has recorded line \<open>n\<close> for the filter \<open>g\<close>, the winner of line \<open>n\<close> is a
  filter whose priority is at least the priority of \<open>g\<close>; at equal priority it is \<open>g\<close> or a
  filter that stands before \<open>g\<close> in the list.
\<close>

theorem winner_is_first_recorded:
  assumes ids: "distinct (map filter_id fs)"
      and nums: "\<forall>f \<in> set fs. \<exists>v. priority f = Num v"
      and build: "buildCombinedRegex fs = Inr (re, fm)"
      and run: "performCombinedAnalysis text re fm = Some (Inr (res, win))"
      and g: "g \<in> set fs" "map_of res (filter_id g) = Some r" "n \<in> set (lines r)"
  shows "\<exists>f \<in> set fs. map_of win n = Some (filter_id f) \<and>
           num_le (priority g) (priority f) \<and>
           (priority g = priority f \<longrightarrow> f = g \<or> precedes f g fs)"
proof -
  define srt where "srt = Array_sort by_priority_desc fs"
  have sk: "srt = sort_key (\<lambda>f. - prio f) fs"
    unfolding srt_def by (rule Array_sort_by_priority [OF nums])
  have set_sorted: "set srt = set fs" and len: "length srt = length fs"
    unfolding sk by simp_all
  from g(1) have ne: "fs \<noteq> []" by auto
  from buildCombinedRegex_filterMap [OF ne build]
  have fm: "fm = fold (\<lambda>(i, f) m.
        AList.update (Suc i) \<lparr>filterId = filter_id f, isExclude = (focusAction f = EXCLUDED)\<rparr> m)
      (List.enumerate 0 srt) []"
    by (simp add: srt_def)
  have lk: "map_of fm j = (if 0 < j \<and> j \<le> length srt then Some (info_of (srt ! (j - 1))) else None)" for j
    unfolding fm using filterMap_lookup [of 0 srt "[]" j] by simp
  from ranked_winner [OF performCombinedAnalysis_ranked [OF run] g(2,3)]
  obtain b wi i ki where w: "map_of fm b = Some wi" "map_of win n = Some (filterId wi)"
    "map_of fm i = Some ki" "filterId ki = filter_id g" "b \<le> i"
    by blast
  from w(1) lk [of b] have b: "0 < b" "b \<le> length srt" "wi = info_of (srt ! (b - 1))"
    by (auto split: if_splits)
  from w(3) lk [of i] have i: "0 < i" "i \<le> length srt" "ki = info_of (srt ! (i - 1))"
    by (auto split: if_splits)
  define f where "f = srt ! (b - 1)"
  define g' where "g' = srt ! (i - 1)"
  have "b - 1 < length srt" and "i - 1 < length srt"
    using b(1,2) i(1,2) by simp_all
  then have "f \<in> set srt" and "g' \<in> set srt"
    unfolding f_def g'_def by (simp_all only: nth_mem)
  then have f_in: "f \<in> set fs" and g'_in: "g' \<in> set fs"
    by (simp_all only: set_sorted)
  have "filter_id g' = filter_id g"
    using w(4) i(3) by (simp add: g'_def info_of_def)
  moreover from ids have "inj_on filter_id (set fs)"
    by (simp add: distinct_map)
  ultimately have gg: "g' = g"
    using g(1) g'_in by (simp add: inj_on_eq_iff)
  have win: "map_of win n = Some (filter_id f)"
    using w(2) b(3) by (simp add: f_def info_of_def)
  have pq: "b - 1 \<le> i - 1" "i - 1 < length srt"
    using w(5) b i by simp_all
  have "prio g' \<le> prio f"
    unfolding f_def g'_def by (rule sorted_priority_order(1) [OF sk pq])
  then have le: "prio g \<le> prio f" by (simp add: gg)
  obtain vf vg where v: "priority f = Num vf" "priority g = Num vg"
    using nums f_in g(1) by blast
  then have pf: "prio f = vf" "prio g = vg" by (simp_all add: prio_def)
  have nle: "num_le (priority g) (priority f)"
    using le v pf by simp
  have tie: "f = g \<or> precedes f g fs" if "priority g = priority f"
  proof (cases "b = i")
    case True
    then show ?thesis using gg by (simp add: f_def g'_def)
  next
    case False
    with b i have "b - 1 \<noteq> i - 1" by simp
    moreover have "prio g' = prio f"
      using that gg by (simp add: prio_def)
    then have "prio (srt ! (i - 1)) = prio (srt ! (b - 1))"
      unfolding f_def g'_def .
    ultimately have "precedes (srt ! (b - 1)) (srt ! (i - 1)) fs"
      by (intro sorted_priority_order(2) [OF sk pq])
    then have "precedes f g' fs" unfolding f_def g'_def .
    then show ?thesis by (simp add: gg)
  qed
  from f_in win nle tie show ?thesis by blast
qed

theorem winner_is_first_recorded_witness:
  "distinct (map filter_id [error_100, db_error_10]) \<and>
   priority error_100 = Num 100 \<and> priority db_error_10 = Num 10 \<and>
   performCombinedAnalysis ''error db error'' (fst sample_combined) (snd sample_combined) =
     Some (Inr ([(''filter-error'', \<lparr>lines = [0], isExclude = False\<rparr>),
                 (''filter-db-error'', \<lparr>lines = [0], isExclude = False\<rparr>)],
                [(0, ''filter-error'')])) \<and>
   (\<exists>f. (f = error_100 \<or> f = db_error_10) \<and>
        map_of [(0 :: nat, ''filter-error'')] 0 = Some (filter_id f) \<and>
        num_le (priority db_error_10) (priority f))"
proof -
  have d: "distinct (map filter_id [error_100, db_error_10])"
    by code_simp
  have p: "priority error_100 = Num 100" "priority db_error_10 = Num 10"
    by code_simp+
  then have nums: "\<forall>f \<in> set [error_100, db_error_10]. \<exists>v. priority f = Num v"
    by simp
  have run:
    "performCombinedAnalysis ''error db error'' (fst sample_combined) (snd sample_combined) =
       Some (Inr ([(''filter-error'', \<lparr>lines = [0], isExclude = False\<rparr>),
                   (''filter-db-error'', \<lparr>lines = [0], isExclude = False\<rparr>)],
                  [(0, ''filter-error'')]))"
    by code_simp
  have r: "map_of [(''filter-error'', \<lparr>lines = [0 :: nat], isExclude = False\<rparr>),
                   (''filter-db-error'', \<lparr>lines = [0], isExclude = False\<rparr>)]
             (filter_id db_error_10) = Some \<lparr>lines = [0], isExclude = False\<rparr>"
    by code_simp
  from winner_is_first_recorded [OF d nums sample_combined_built run _ r, of 0]
  obtain f where "f \<in> set [error_100, db_error_10]"
      and "map_of [(0 :: nat, ''filter-error'')] 0 = Some (filter_id f)"
      and "num_le (priority db_error_10) (priority f)"
    by auto
  with d p run show ?thesis by auto
qed

end
